theory Spec2Isabelle
  imports Main "HOL-Library.Word" "HOL-Library.Char_ord" "HOL-Library.List_Lexorder"
    "HOL-Library.AList"
begin

section \<open>A file-based queue: one file per record (package dfq, queue.go)\<close>

text \<open>
  The queue keeps its records as files \<open><id>.data\<close> of one directory; producers write a
  scratch file \<open>*.temp\<close> and rename it into the sequence; the consumer reads the file named
  by the read cursor and removes it on commit. The model below is sequential: the two
  mutexes and the atomic add of the source serialise the steps that are modelled here as
  single functions, and the blocking \<open>Wait\<close> is left out. The operating system is a value
  of type \<open>world\<close> that every operation takes and returns.
\<close>

subsection \<open>Machine integers and their decimal names\<close>

type_synonym int64 = "64 word"
type_synonym bytes = string

text \<open>\<open>strconv.FormatInt(v, 10)\<close>, which \<open>fmt.Sprint\<close> uses for an \<open>int64\<close> operand.\<close>

definition digit_char :: "nat \<Rightarrow> char" where
  "digit_char d = ''0123456789'' ! d"

fun FormatUint :: "nat \<Rightarrow> string" where
  "FormatUint n = (if n < 10 then [digit_char n] else FormatUint (n div 10) @ [digit_char (n mod 10)])"

declare FormatUint.simps [simp del]

definition FormatInt :: "int \<Rightarrow> string" where
  "FormatInt i = (if i < 0 then CHR ''-'' # FormatUint (nat (- i)) else FormatUint (nat i))"

text \<open>
  \<open>strconv.ParseInt(s, 10, 64)\<close>: an optional sign, then at least one decimal digit and
  nothing else; the digits are scanned from the left and the scan stops at the first
  character that is no digit (a syntax error) or at the first digit that takes the value
  past \<open>2^64 - 1\<close> (a range error); a value outside \<open>[-2^63, 2^63 - 1]\<close> is a range error.
\<close>

text \<open>
  Errors: the sentinel \<open>ErrEmptyQueue\<close> of the package; the errors of the operating system
  (\<open>ErrNotExist\<close> is the one \<open>os.IsNotExist\<close> recognises, \<open>ErrExist\<close> the one of a name
  that is taken, \<open>ErrIO\<close> any other); the two errors of \<open>strconv\<close>; an error of the
  caller's handler; and \<open>fmt.Errorf("...: %w", err)\<close>.
\<close>

datatype error =
    ErrEmptyQueue
  | ErrNotExist
  | ErrExist
  | ErrIO
  | ErrSyntax
  | ErrRange
  | ErrHandler string
  | Wrapped string error

definition is_digit :: "char \<Rightarrow> bool" where
  "is_digit c = (48 \<le> (of_char c :: nat) \<and> (of_char c :: nat) \<le> 57)"

definition digit_val :: "char \<Rightarrow> nat" where
  "digit_val c = of_char c - 48"

fun scan_digits :: "nat \<Rightarrow> string \<Rightarrow> error + nat" where
  "scan_digits n [] = Inr n"
| "scan_digits n (c # cs) =
     (if \<not> is_digit c then Inl ErrSyntax
      else if n * 10 + digit_val c > 2 ^ 64 - 1 then Inl ErrRange
      else scan_digits (n * 10 + digit_val c) cs)"

definition ParseUint :: "string \<Rightarrow> error + nat" where
  "ParseUint s = (if s = [] then Inl ErrSyntax else scan_digits 0 s)"

definition ParseInt :: "string \<Rightarrow> error + int64" where
  "ParseInt s =
     (if s = [] then Inl ErrSyntax
      else let neg = (hd s = CHR ''-'');
               s1 = (if hd s = CHR ''+'' \<or> hd s = CHR ''-'' then tl s else s)
           in case ParseUint s1 of
                Inl e \<Rightarrow> Inl e
              | Inr un \<Rightarrow>
                  if \<not> neg \<and> un \<ge> 2 ^ 63 then Inl ErrRange
                  else if neg \<and> un > 2 ^ 63 then Inl ErrRange
                  else Inr (if neg then - word_of_nat un else word_of_nat un))"

definition dataSuffix :: string where
  "dataSuffix = ''.data''"

definition tempSuffix :: string where
  "tempSuffix = ''.temp''"

definition HasSuffix :: "string \<Rightarrow> string \<Rightarrow> bool" where
  "HasSuffix s suffix =
     (length s \<ge> length suffix \<and> drop (length s - length suffix) s = suffix)"

text \<open>\<open>fmt.Sprint(id, dataSuffix)\<close>: no space is added next to a string operand.\<close>

definition data_name :: "int64 \<Rightarrow> string" where
  "data_name i = FormatInt (sint i) @ dataSuffix"

subsection \<open>The operating system\<close>

text \<open>
  A path is a directory and an entry name: \<open>filepath.Join(dir, name)\<close> is the pair
  \<open>(dir, name)\<close>, and \<open>(dir, [])\<close> stands for the directory itself. The file system is an
  association list from paths to contents. \<open>faulty\<close> lists the paths on which the operating
  system refuses every operation with an error other than "does not exist" (permissions,
  a directory in the way, a device error). \<open>names\<close> is the supply of random strings that
  \<open>ioutil.TempFile\<close> draws from, and \<open>trace\<close> records the mutations in the order they
  happened. Directories themselves are not stored: \<open>os.MkdirAll\<close> succeeds unless the
  directory is refused. An open file is the path it was opened at together with the bytes
  it held then.
\<close>

type_synonym path = "string \<times> string"

datatype event =
    Created path
  | Written path
  | Removed path
  | Renamed path path

record world =
  files :: "(path \<times> bytes) list"
  faulty :: "path list"
  names :: "string list"
  trace :: "event list"

definition IsNotExist :: "error option \<Rightarrow> bool" where
  "IsNotExist err = (err = Some ErrNotExist)"

definition os_MkdirAll :: "world \<Rightarrow> string \<Rightarrow> error option \<times> world" where
  "os_MkdirAll w dir = (if (dir, []) \<in> set (faulty w) then (Some ErrIO, w) else (None, w))"

text \<open>\<open>ioutil.ReadDir\<close> returns the entries of the directory sorted by file name.\<close>

definition entries :: "world \<Rightarrow> string \<Rightarrow> string list" where
  "entries w dir = map (\<lambda>e. snd (fst e)) (filter (\<lambda>e. fst (fst e) = dir) (files w))"

definition os_ReadDir :: "world \<Rightarrow> string \<Rightarrow> error + string list" where
  "os_ReadDir w dir =
     (if (dir, []) \<in> set (faulty w) then Inl ErrIO else Inr (sort (entries w dir)))"

definition os_Open :: "world \<Rightarrow> path \<Rightarrow> error + (path \<times> bytes)" where
  "os_Open w p =
     (if p \<in> set (faulty w) then Inl ErrIO
      else case map_of (files w) p of
             None \<Rightarrow> Inl ErrNotExist
           | Some b \<Rightarrow> Inr (p, b))"

definition os_Remove :: "world \<Rightarrow> path \<Rightarrow> error option \<times> world" where
  "os_Remove w p =
     (if p \<in> set (faulty w) then (Some ErrIO, w)
      else if map_of (files w) p = None then (Some ErrNotExist, w)
      else (None, w\<lparr>files := AList.delete p (files w), trace := trace w @ [Removed p]\<rparr>))"

text \<open>\<open>os.Rename\<close> replaces the file at the new path when there is one.\<close>

definition os_Rename :: "world \<Rightarrow> path \<Rightarrow> path \<Rightarrow> error option \<times> world" where
  "os_Rename w old new =
     (if old \<in> set (faulty w) \<or> new \<in> set (faulty w) then (Some ErrIO, w)
      else case map_of (files w) old of
             None \<Rightarrow> (Some ErrNotExist, w)
           | Some b \<Rightarrow>
               (None, w\<lparr>files := AList.update new b (AList.delete old (files w)),
                         trace := trace w @ [Renamed old new]\<rparr>))"

definition os_RemoveAll :: "world \<Rightarrow> string \<Rightarrow> error option \<times> world" where
  "os_RemoveAll w dir =
     (if (dir, []) \<in> set (faulty w) then (Some ErrIO, w)
      else (None, w\<lparr>files := filter (\<lambda>e. fst (fst e) \<noteq> dir) (files w),
                      trace := trace w @ map (\<lambda>n. Removed (dir, n)) (entries w dir)\<rparr>))"

text \<open>
  \<open>ioutil.TempFile(dir, "*.temp")\<close>: the name is a random string followed by \<open>.temp\<close>;
  a name that exists already is skipped and the next random string is tried, until the
  supply is used up.
\<close>

fun pick_temp :: "world \<Rightarrow> string \<Rightarrow> string list \<Rightarrow> (error + path) \<times> world" where
  "pick_temp w dir [] = (Inl ErrExist, w\<lparr>names := []\<rparr>)"
| "pick_temp w dir (r # rs) =
     (if (dir, r @ tempSuffix) \<in> set (faulty w) then (Inl ErrIO, w\<lparr>names := rs\<rparr>)
      else if map_of (files w) (dir, r @ tempSuffix) \<noteq> None then pick_temp w dir rs
      else (Inr (dir, r @ tempSuffix),
            w\<lparr>files := AList.update (dir, r @ tempSuffix) [] (files w), names := rs,
              trace := trace w @ [Created (dir, r @ tempSuffix)]\<rparr>))"

definition TempFile :: "world \<Rightarrow> string \<Rightarrow> (error + path) \<times> world" where
  "TempFile w dir = pick_temp w dir (names w)"

text \<open>
  Writing to the open scratch file appends to its contents. \<open>io.Copy(dst, src)\<close> writes
  what the reader yields and returns the first error of either side; a reader is its
  bytes and the error, if any, it ends with.
\<close>

definition os_Write :: "world \<Rightarrow> path \<Rightarrow> bytes \<Rightarrow> error option \<times> world" where
  "os_Write w p data =
     (if p \<in> set (faulty w) then (Some ErrIO, w)
      else case map_of (files w) p of
             None \<Rightarrow> (None, w)
           | Some b \<Rightarrow> (None, w\<lparr>files := AList.update p (b @ data) (files w),
                                   trace := trace w @ [Written p]\<rparr>))"

type_synonym reader = "bytes \<times> error option"

definition io_Copy :: "world \<Rightarrow> path \<Rightarrow> reader \<Rightarrow> error option \<times> world" where
  "io_Copy w out rd =
     (case os_Write w out (fst rd) of
        (Some e, w') \<Rightarrow> (Some e, w')
      | (None, w') \<Rightarrow> (snd rd, w'))"

subsection \<open>The queue\<close>

text \<open>
  \<open>notify\<close> is the channel of capacity one: \<open>True\<close> when a wake-up is pending.
  \<open>length_q\<close> is the field \<open>length\<close>.
\<close>

record queue =
  directory :: string
  notify :: bool
  reader_currentId :: int64
  writer_counter :: int64
  length_q :: int64

definition notifyUpdate :: "queue \<Rightarrow> queue" where
  "notifyUpdate q = q\<lparr>notify := True\<rparr>"

definition Len :: "queue \<Rightarrow> int64" where
  "Len q = length_q q"

definition File :: "queue \<Rightarrow> path" where
  "File q = (directory q, data_name (reader_currentId q))"

definition attachToQueue :: "queue \<Rightarrow> path \<Rightarrow> world \<Rightarrow> error option \<times> queue \<times> world" where
  "attachToQueue q oldName w =
     (let ident = writer_counter q in
      case os_Rename w oldName (directory q, data_name ident) of
        (Some e, w') \<Rightarrow> (Some (Wrapped ''rename temp file to queue element'' e), q, w')
      | (None, w') \<Rightarrow> (None, q\<lparr>writer_counter := ident + 1\<rparr>, w'))"

definition Attach :: "queue \<Rightarrow> path \<Rightarrow> world \<Rightarrow> error option \<times> queue \<times> world" where
  "Attach q file w =
     (case attachToQueue q file w of
        (Some e, q', w') \<Rightarrow> (Some (Wrapped ''dfq: attach to queue'' e), q', w')
      | (None, q', w') \<Rightarrow> (None, notifyUpdate (q'\<lparr>length_q := length_q q' + 1\<rparr>), w'))"

text \<open>
  The handler passed to \<open>Stream\<close> is a closure: it gets the scratch file and may act on
  the world and on a state of its own (for \<open>Steal\<close>, the source queue).
\<close>

type_synonym 's handler = "path \<Rightarrow> 's \<Rightarrow> world \<Rightarrow> error option \<times> 's \<times> world"

definition Stream ::
  "queue \<Rightarrow> 's handler \<Rightarrow> 's \<Rightarrow> world \<Rightarrow> error option \<times> queue \<times> 's \<times> world" where
  "Stream q h s w =
     (case TempFile w (directory q) of
        (Inl e, w1) \<Rightarrow> (Some (Wrapped ''dfq: put: create temp file'' e), q, s, w1)
      | (Inr tmp, w1) \<Rightarrow>
          (case h tmp s w1 of
             (Some e, s2, w2) \<Rightarrow> (Some e, q, s2, snd (os_Remove w2 tmp))
           | (None, s2, w2) \<Rightarrow>
               (case Attach q tmp w2 of
                  (Some e, q3, w3) \<Rightarrow> (Some e, q3, s2, snd (os_Remove w3 tmp))
                | (None, q3, w3) \<Rightarrow> (None, q3, s2, w3))))"

definition Put_handler :: "reader \<Rightarrow> unit handler" where
  "Put_handler rd out s w =
     (case io_Copy w out rd of
        (Some e, w') \<Rightarrow> (Some (Wrapped ''dfq: put: write temp file'' e), s, w')
      | (None, w') \<Rightarrow> (None, s, w'))"

definition Put :: "queue \<Rightarrow> reader \<Rightarrow> world \<Rightarrow> error option \<times> queue \<times> world" where
  "Put q rd w = (case Stream q (Put_handler rd) () w of (err, q', _, w') \<Rightarrow> (err, q', w'))"

definition Peek :: "queue \<Rightarrow> world \<Rightarrow> (error + (path \<times> bytes)) \<times> queue \<times> world" where
  "Peek q w =
     (case os_Open w (directory q, data_name (reader_currentId q)) of
        Inr f \<Rightarrow> (Inr f, q, w)
      | Inl e \<Rightarrow> if IsNotExist (Some e) then (Inl ErrEmptyQueue, q, w) else (Inl e, q, w))"

definition Commit :: "queue \<Rightarrow> world \<Rightarrow> error option \<times> queue \<times> world" where
  "Commit q w =
     (let path = (directory q, data_name (reader_currentId q));
          q1 = q\<lparr>reader_currentId := reader_currentId q + 1\<rparr>;
          q2 = q1\<lparr>length_q := length_q q1 - 1\<rparr>;
          q3 = notifyUpdate q2
      in case os_Remove w path of
           (err, w') \<Rightarrow> (if IsNotExist err then None else err, q3, w'))"

definition Destroy :: "queue \<Rightarrow> world \<Rightarrow> error option \<times> world" where
  "Destroy q w = os_RemoveAll w (directory q)"

text \<open>
  \<open>GetBytes\<close> and \<open>GetString\<close>: peek and read the whole stream.
\<close>

definition GetBytes :: "queue \<Rightarrow> world \<Rightarrow> error + bytes" where
  "GetBytes q w = (case fst (Peek q w) of Inl e \<Rightarrow> Inl e | Inr f \<Rightarrow> Inr (snd f))"

text \<open>
  \<open>Steal\<close> takes a value of the interface \<open>Queue\<close>. The source is a queue of this package,
  seen either with its method \<open>File\<close> (the type assertion succeeds) or through a type
  that hides it.
\<close>

datatype source = WithFile queue | Opaque queue

fun impl :: "source \<Rightarrow> queue" where
  "impl (WithFile f) = f"
| "impl (Opaque f) = f"

fun set_impl :: "source \<Rightarrow> queue \<Rightarrow> source" where
  "set_impl (WithFile _) f = WithFile f"
| "set_impl (Opaque _) f = Opaque f"

definition Steal_handler :: "source handler" where
  "Steal_handler out src w =
     (case Peek (impl src) w of
        (Inl e, f1, w1) \<Rightarrow> (Some e, set_impl src f1, w1)
      | (Inr inp, f1, w1) \<Rightarrow>
          (case io_Copy w1 out (snd inp, None) of
             (Some e, w2) \<Rightarrow> (Some e, set_impl src f1, w2)
           | (None, w2) \<Rightarrow>
               (case Commit f1 w2 of (err, f2, w3) \<Rightarrow> (err, set_impl src f2, w3))))"

definition Steal ::
  "queue \<Rightarrow> source \<Rightarrow> world \<Rightarrow> error option \<times> queue \<times> source \<times> world" where
  "Steal q src w =
     (case src of
        WithFile fq \<Rightarrow>
          (case Attach q (File fq) w of
             (None, q1, w1) \<Rightarrow>
               (case Commit fq w1 of (err, f2, w2) \<Rightarrow> (err, q1, WithFile f2, w2))
           | (Some e, q1, w1) \<Rightarrow> Stream q1 Steal_handler src w1)
      | Opaque _ \<Rightarrow> Stream q Steal_handler src w)"

subsection \<open>Open and the recovery scan\<close>

text \<open>
  The loop of \<open>synchronizeState\<close> over the listing: \<open>i\<close> is the index of the entry in
  the whole listing, \<open>mn\<close> and \<open>mx\<close> are the variables \<open>min\<close> and \<open>max\<close>; the comparisons
  are those of signed 64-bit integers
  (\<open>ident\<close> is the variable \<open>id\<close>).
\<close>

fun scan ::
  "string \<Rightarrow> nat \<Rightarrow> string list \<Rightarrow> int64 \<Rightarrow> int64 \<Rightarrow> world \<Rightarrow> error option \<times> int64 \<times> int64 \<times> world" where
  "scan dir i [] mn mx w = (None, mn, mx, w)"
| "scan dir i (name # rest) mn mx w =
     (if HasSuffix name dataSuffix then
        (case ParseInt (take (length name - length dataSuffix) name) of
           Inl e \<Rightarrow> (Some e, mn, mx, w)
         | Inr ident \<Rightarrow>
             if i = 0 then scan dir (i + 1) rest ident ident w
             else if sint ident > sint mx then scan dir (i + 1) rest mn ident w
             else if sint ident < sint mn then scan dir (i + 1) rest ident mx w
             else scan dir (i + 1) rest mn mx w)
      else if HasSuffix name tempSuffix then
        (case os_Remove w (dir, name) of
           (Some e, w') \<Rightarrow> (Some e, mn, mx, w')
         | (None, w') \<Rightarrow> scan dir (i + 1) rest mn mx w')
      else scan dir (i + 1) rest mn mx w)"

definition synchronizeState :: "queue \<Rightarrow> world \<Rightarrow> error option \<times> queue \<times> world" where
  "synchronizeState q w =
     (case os_ReadDir w (directory q) of
        Inl e \<Rightarrow> (Some e, q, w)
      | Inr list \<Rightarrow>
          (case scan (directory q) 0 list 0 0 w of
             (Some e, mn, mx, w') \<Rightarrow> (Some e, q, w')
           | (None, mn, mx, w') \<Rightarrow>
               (None, q\<lparr>reader_currentId := mn, writer_counter := mx, length_q := mx - mn\<rparr>, w')))"

text \<open>\<open>Open\<close> returns no queue when the directory cannot be made, and the queue together
  with the error of the scan otherwise.\<close>

definition Open :: "string \<Rightarrow> world \<Rightarrow> error option \<times> queue option \<times> world" where
  "Open dir w =
     (case os_MkdirAll w dir of
        (Some e, w1) \<Rightarrow> (Some e, None, w1)
      | (None, w1) \<Rightarrow>
          (case synchronizeState
                  \<lparr>directory = dir, notify = False, reader_currentId = 0,
                   writer_counter = 0, length_q = 0\<rparr> w1 of
             (err, q, w2) \<Rightarrow> (err, Some q, w2)))"

text \<open>Repeated calls, for the claims about any number of them.\<close>

primrec Peek_times ::
  "nat \<Rightarrow> queue \<Rightarrow> world \<Rightarrow> (error + (path \<times> bytes)) list \<times> queue \<times> world" where
  "Peek_times 0 q w = ([], q, w)"
| "Peek_times (Suc n) q w =
     (case Peek q w of (r, q1, w1) \<Rightarrow>
        (case Peek_times n q1 w1 of (rs, q2, w2) \<Rightarrow> (r # rs, q2, w2)))"

primrec Commit_times ::
  "nat \<Rightarrow> queue \<Rightarrow> world \<Rightarrow> error option list \<times> queue \<times> world" where
  "Commit_times 0 q w = ([], q, w)"
| "Commit_times (Suc n) q w =
     (case Commit q w of (r, q1, w1) \<Rightarrow>
        (case Commit_times n q1 w1 of (rs, q2, w2) \<Rightarrow> (r # rs, q2, w2)))"

subsection \<open>Records on disk and reachable states\<close>

text \<open>
  The records of a directory are its entries with the suffix \<open>.data\<close>, as the recovery
  scan reads them. The ids from the read cursor up to the write counter, counted in
  64-bit arithmetic, are the pending ones.
\<close>

definition records :: "world \<Rightarrow> string \<Rightarrow> string set" where
  "records w dir = {n \<in> set (entries w dir). HasSuffix n dataSuffix}"

definition pending :: "queue \<Rightarrow> int64 set" where
  "pending q = {i. unat (i - reader_currentId q) < unat (writer_counter q - reader_currentId q)}"

text \<open>The ids of the records of a listing, in the order of the listing.\<close>

fun record_ids :: "string list \<Rightarrow> int64 list" where
  "record_ids [] = []"
| "record_ids (name # rest) =
     (if HasSuffix name dataSuffix then
        (case ParseInt (take (length name - length dataSuffix) name) of
           Inl e \<Rightarrow> record_ids rest
         | Inr ident \<Rightarrow> ident # record_ids rest)
      else record_ids rest)"

text \<open>A handler that touches nothing but the scratch file it is given.\<close>

definition scratch_only :: "unit handler \<Rightarrow> bool" where
  "scratch_only h =
     (\<forall>tmp w. faulty (snd (snd (h tmp () w))) = faulty w \<and>
        (\<forall>p. p \<noteq> tmp \<longrightarrow> map_of (files (snd (snd (h tmp () w)))) p = map_of (files w) p))"

text \<open>
  The contents of the record at a path: what the file holds when its name ends in
  \<open>.data\<close>, nothing otherwise.
\<close>

definition record_at :: "world \<Rightarrow> path \<Rightarrow> bytes option" where
  "record_at w p = (if HasSuffix (snd p) dataSuffix then map_of (files w) p else None)"

text \<open>
  The states reached by whole calls of the interface, one after another, on any number
  of open queues; a state is the queue value of each open directory and the world. No
  call runs while another one is under way: every rule is one call from its entry to
  its return.

  \<^item> \<open>start\<close>: no queue is open and the operating system refuses no path; the
    directories may hold any files.
  \<^item> \<open>opened\<close>: \<open>Open\<close> succeeds on a directory that is not open yet and holds no record.
  \<^item> \<open>streamed\<close>, \<open>put\<close>: \<open>Stream\<close> (with a handler that touches nothing but its scratch
    file) or \<open>Put\<close> on an open queue whose length is below the largest \<open>int64\<close>.
  \<^item> \<open>attached\<close>: \<open>Attach\<close> of a file that is not a record in the directory of an open
    queue, the length as before.
  \<^item> \<open>stolen\<close>: \<open>Steal\<close> from another open queue, seen with or without its method
    \<open>File\<close>, the length of the receiving queue as before.
  \<^item> \<open>committed\<close>: \<open>Commit\<close> when \<open>Peek\<close> has returned a record.
  \<^item> \<open>supplied\<close>: the supply of random names changes.

  \<open>Peek\<close>, \<open>Len\<close> and \<open>File\<close> change neither the queue nor the world and need no rule.
  The calls return whatever they return: a failed call is a step like any other.
\<close>

inductive reachable :: "(string \<rightharpoonup> queue) \<Rightarrow> world \<Rightarrow> bool" where
  start: "faulty w = [] \<Longrightarrow> reachable Map.empty w"
| opened: "\<lbrakk>reachable qs w; qs dir = None; records w dir = {};
      Open dir w = (None, Some q, w')\<rbrakk> \<Longrightarrow> reachable (qs(dir \<mapsto> q)) w'"
| streamed: "\<lbrakk>reachable qs w; qs (directory q) = Some q; sint (Len q) < 2 ^ 63 - 1;
      scratch_only h; Stream q h () w = (err, q', u, w')\<rbrakk> \<Longrightarrow>
    reachable (qs(directory q \<mapsto> q')) w'"
| put: "\<lbrakk>reachable qs w; qs (directory q) = Some q; sint (Len q) < 2 ^ 63 - 1;
      Put q rd w = (err, q', w')\<rbrakk> \<Longrightarrow> reachable (qs(directory q \<mapsto> q')) w'"
| attached: "\<lbrakk>reachable qs w; qs (directory q) = Some q; sint (Len q) < 2 ^ 63 - 1;
      qs (fst file) = None \<or> \<not> HasSuffix (snd file) dataSuffix;
      Attach q file w = (err, q', w')\<rbrakk> \<Longrightarrow> reachable (qs(directory q \<mapsto> q')) w'"
| stolen: "\<lbrakk>reachable qs w; qs (directory q) = Some q;
      qs (directory (impl src)) = Some (impl src); directory (impl src) \<noteq> directory q;
      sint (Len q) < 2 ^ 63 - 1; Steal q src w = (err, q', src', w')\<rbrakk> \<Longrightarrow>
    reachable (qs(directory q \<mapsto> q', directory (impl src) \<mapsto> impl src')) w'"
| committed: "\<lbrakk>reachable qs w; qs (directory q) = Some q; fst (Peek q w) = Inr f;
      Commit q w = (err, q', w')\<rbrakk> \<Longrightarrow> reachable (qs(directory q \<mapsto> q')) w'"
| supplied: "reachable qs w \<Longrightarrow> reachable qs (w\<lparr>names := ns\<rparr>)"

text \<open>
  What holds in every such state: the length is the distance from the cursor to the
  counter, below \<open>2^63\<close>, and the records on disk are the files of the pending ids.
\<close>

definition queue_inv :: "queue \<Rightarrow> world \<Rightarrow> bool" where
  "queue_inv q w =
     (faulty w = [] \<and> length_q q = writer_counter q - reader_currentId q \<and>
      unat (writer_counter q - reader_currentId q) < 2 ^ 63 \<and>
      records w (directory q) = data_name ` pending q)"

text \<open>And for the open queues together: each is filed under its own directory.\<close>

definition system_inv :: "(string \<rightharpoonup> queue) \<Rightarrow> world \<Rightarrow> bool" where
  "system_inv qs w =
     (faulty w = [] \<and> (\<forall>d q. qs d = Some q \<longrightarrow> directory q = d \<and> queue_inv q w))"

section \<open>Evaluation on concrete inputs\<close>

lemmas FormatUint_num =
  FormatUint.simps [of 0] FormatUint.simps [of 1] FormatUint.simps [of "Suc 0"]
  FormatUint.simps [of "numeral k"] for k

lemmas str_defs =
  data_name_def FormatInt_def FormatUint_num digit_char_def dataSuffix_def tempSuffix_def
  HasSuffix_def ParseInt_def ParseUint_def is_digit_def digit_val_def

lemmas os_defs =
  os_MkdirAll_def os_ReadDir_def entries_def os_Open_def os_Remove_def os_Rename_def
  TempFile_def os_Write_def io_Copy_def IsNotExist_def

lemmas q_defs =
  Open_def synchronizeState_def Stream_def Put_def Put_handler_def Attach_def
  attachToQueue_def notifyUpdate_def Peek_def Commit_def Len_def File_def GetBytes_def

section \<open>Names of records: printing and parsing agree\<close>

text \<open>
  \<open>ParseInt\<close> reads back what \<open>FormatInt\<close> prints, so the names of two records are
  equal only when their ids are, and a scratch file never has the name of a record.
\<close>

lemma digit_char_props:
  "d < 10 \<Longrightarrow>
   is_digit (digit_char d) \<and> digit_val (digit_char d) = d \<and>
   digit_char d \<noteq> CHR ''-'' \<and> digit_char d \<noteq> CHR ''+''"
proof -
  assume "d < 10"
  then have "d \<in> {0, 1, 2, 3, 4, 5, 6, 7, 8, 9}" by auto
  then show ?thesis
    by (auto simp: is_digit_def digit_val_def digit_char_def)
qed

lemma scan_digits_snoc:
  "scan_digits a (xs @ [c]) =
     (case scan_digits a xs of
        Inl e \<Rightarrow> Inl e
      | Inr m \<Rightarrow>
          if \<not> is_digit c then Inl ErrSyntax
          else if m * 10 + digit_val c > 2 ^ 64 - 1 then Inl ErrRange
          else Inr (m * 10 + digit_val c))"
  by (induction xs arbitrary: a) simp_all

lemma FormatUint_nonempty: "FormatUint n \<noteq> []"
  by (subst FormatUint.simps) simp

lemma hd_FormatUint: "hd (FormatUint n) \<noteq> CHR ''-'' \<and> hd (FormatUint n) \<noteq> CHR ''+''"
proof (induction n rule: FormatUint.induct)
  case (1 n)
  show ?case
  proof (cases "n < 10")
    case True
    then show ?thesis using digit_char_props [of n] by (subst (1 2) FormatUint.simps) simp
  next
    case False
    then show ?thesis using 1 FormatUint_nonempty [of "n div 10"]
      by (subst (1 2) FormatUint.simps) simp
  qed
qed

lemma scan_FormatUint: "n < 2 ^ 64 \<Longrightarrow> scan_digits 0 (FormatUint n) = Inr n"
proof (induction n rule: FormatUint.induct)
  case (1 n)
  show ?case
  proof (cases "n < 10")
    case True
    then show ?thesis using digit_char_props [of n] "1.prems"
      by (subst FormatUint.simps) simp
  next
    case False
    have "n div 10 \<le> n" by simp
    then have small: "n div 10 < 2 ^ 64" using "1.prems" by simp
    have d: "is_digit (digit_char (n mod 10))" "digit_val (digit_char (n mod 10)) = n mod 10"
      using digit_char_props [of "n mod 10"] by simp_all
    have "scan_digits 0 (FormatUint (n div 10)) = Inr (n div 10)"
      using 1 False small by simp
    then show ?thesis using False d "1.prems"
      by (subst FormatUint.simps) (simp add: scan_digits_snoc)
  qed
qed

lemma ParseInt_FormatInt:
  assumes "- (2 ^ 63) \<le> k" and "k < 2 ^ 63"
  shows "ParseInt (FormatInt k) = Inr (of_int k)"
proof (cases "k < 0")
  case True
  have "nat (- k) \<le> 2 ^ 63" using assms True by simp
  then have b: "nat (- k) < 2 ^ 64" by simp
  have "\<not> nat (- k) > 2 ^ 63" using assms True by simp
  then show ?thesis using True scan_FormatUint [OF b]
    by (simp add: ParseInt_def FormatInt_def ParseUint_def FormatUint_nonempty)
next
  case False
  have lt: "nat k < 2 ^ 63" using assms False by simp
  then have b: "nat k < 2 ^ 64" by simp
  from lt have nge: "\<not> nat k \<ge> 2 ^ 63" by simp
  show ?thesis using False scan_FormatUint [OF b] hd_FormatUint [of "nat k"] nge
    by (simp add: ParseInt_def FormatInt_def ParseUint_def FormatUint_nonempty)
qed

lemma ParseInt_sint: "ParseInt (FormatInt (sint (i :: int64))) = Inr i"
proof -
  have "- (2 ^ 63) \<le> sint i" using sint_ge [of i] by simp
  moreover have "sint i < 2 ^ 63" using sint_lt [of i] by simp
  ultimately have "ParseInt (FormatInt (sint i)) = Inr (of_int (sint i))"
    by (rule ParseInt_FormatInt)
  then show ?thesis by simp
qed

lemma data_name_inj [simp]: "(data_name i = data_name j) = (i = j)"
proof
  assume "data_name i = data_name j"
  then have "FormatInt (sint i) = FormatInt (sint j)" by (simp add: data_name_def)
  then have "ParseInt (FormatInt (sint i)) = ParseInt (FormatInt (sint j))" by simp
  then show "i = j" by (simp add: ParseInt_sint)
qed simp

lemma HasSuffix_append [simp]: "HasSuffix (xs @ s) s"
  by (simp add: HasSuffix_def)

lemma HasSuffix_data_name [simp]: "HasSuffix (data_name i) dataSuffix"
  by (simp add: data_name_def)

lemma stem_data_name [simp]:
  "take (length (data_name i) - length dataSuffix) (data_name i) = FormatInt (sint i)"
  by (simp add: data_name_def)

lemma HasSuffix_last: "HasSuffix n s \<Longrightarrow> s \<noteq> [] \<Longrightarrow> last n = last s"
proof -
  assume a: "HasSuffix n s" and b: "s \<noteq> []"
  then have "n = take (length n - length s) n @ s"
    by (metis HasSuffix_def append_take_drop_id)
  then have "last n = last (take (length n - length s) n @ s)" by simp
  then show ?thesis using b by simp
qed

lemma temp_not_data [simp]: "\<not> HasSuffix (r @ tempSuffix) dataSuffix"
proof
  assume "HasSuffix (r @ tempSuffix) dataSuffix"
  then have "last (r @ tempSuffix) = last dataSuffix"
    by (rule HasSuffix_last) (simp add: dataSuffix_def)
  then show False by (simp add: tempSuffix_def dataSuffix_def)
qed

lemma temp_neq_data_name [simp]: "r @ tempSuffix \<noteq> data_name i" "data_name i \<noteq> r @ tempSuffix"
  using temp_not_data [of r] HasSuffix_data_name [of i] by metis+

section \<open>Signed 64-bit arithmetic\<close>

lemma sint_succ: "sint (x :: int64) < 2 ^ 63 - 1 \<Longrightarrow> sint (x + 1) = sint x + 1"
proof -
  assume a: "sint x < 2 ^ 63 - 1"
  have lo: "- (2 ^ 63) \<le> sint x" using sint_ge [of x] by simp
  have "sint (x + 1) = signed_take_bit 63 (sint x + 1)"
    by (simp add: sint_word_ariths)
  also have "\<dots> = sint x + 1"
    using a lo by (intro signed_take_bit_int_eq_self) auto
  finally show ?thesis .
qed

lemma sint_of_int_small:
  "- (2 ^ 63) \<le> k \<Longrightarrow> k < 2 ^ 63 \<Longrightarrow> sint (of_int k :: int64) = k"
  by (simp add: sint_sbintrunc' signed_take_bit_int_eq_self)

lemma sint_of_nat_small: "n < 2 ^ 63 \<Longrightarrow> sint (of_nat n :: int64) = int n"
proof -
  assume "n < 2 ^ 63"
  then have "int n < 2 ^ 63" by (metis of_nat_less_iff of_nat_numeral of_nat_power)
  then have "sint (of_int (int n) :: int64) = int n"
    by (intro sint_of_int_small) auto
  then show ?thesis by simp
qed

lemma sint_neg_of_nat_small: "n < 2 ^ 63 \<Longrightarrow> sint (- of_nat n :: int64) = - int n"
proof -
  assume "n < 2 ^ 63"
  then have "int n < 2 ^ 63" by (metis of_nat_less_iff of_nat_numeral of_nat_power)
  then have "sint (of_int (- int n) :: int64) = - int n"
    by (intro sint_of_int_small) auto
  then show ?thesis by simp
qed

section \<open>Peek and Commit\<close>

lemma Peek_state: "snd (Peek q w) = (q, w)"
  by (simp add: Peek_def split: sum.split)

lemma Peek_result:
  "fst (Peek q w) =
     (if File q \<in> set (faulty w) then Inl ErrIO
      else case map_of (files w) (File q) of
             None \<Rightarrow> Inl ErrEmptyQueue
           | Some b \<Rightarrow> Inr (File q, b))"
  by (simp add: Peek_def os_Open_def File_def IsNotExist_def split: option.split)

lemma entries_empty_absent: "entries w dir = [] \<Longrightarrow> map_of (files w) (dir, n) = None"
proof -
  assume e: "entries w dir = []"
  have "(dir, n) \<notin> fst ` set (files w)"
  proof
    assume "(dir, n) \<in> fst ` set (files w)"
    then obtain b where "((dir, n), b) \<in> set (files w)" by auto
    then have "n \<in> set (entries w dir)" by (force simp: entries_def)
    with e show False by simp
  qed
  then show ?thesis by (simp add: map_of_eq_None_iff)
qed

lemma Commit_absent:
  "File q \<notin> set (faulty w) \<Longrightarrow> map_of (files w) (File q) = None \<Longrightarrow>
   Commit q w =
     (None, q\<lparr>reader_currentId := reader_currentId q + 1, length_q := length_q q - 1,
              notify := True\<rparr>, w)"
  by (simp add: Commit_def Let_def os_Remove_def File_def IsNotExist_def notifyUpdate_def)

lemma Commit_times_empty:
  "entries w (directory q) = [] \<Longrightarrow> faulty w = [] \<Longrightarrow>
   Commit_times n q w =
     (replicate n None,
      (if n = 0 then q
       else q\<lparr>reader_currentId := reader_currentId q + of_nat n,
               length_q := length_q q - of_nat n, notify := True\<rparr>), w)"
proof (induction n arbitrary: q)
  case 0
  show ?case by simp
next
  case (Suc n)
  let ?q1 = "q\<lparr>reader_currentId := reader_currentId q + 1, length_q := length_q q - 1,
              notify := True\<rparr>"
  have c: "Commit q w = (None, ?q1, w)"
    using Suc.prems by (intro Commit_absent) (simp_all add: File_def entries_empty_absent)
  have "entries w (directory ?q1) = []" using Suc.prems by simp
  from Suc.IH [OF this Suc.prems(2)] show ?case
    by (simp add: c add.assoc diff_diff_eq)
qed

lemma Open_empty:
  "entries w dir = [] \<Longrightarrow> faulty w = [] \<Longrightarrow>
   Open dir w =
     (None, Some \<lparr>directory = dir, notify = False, reader_currentId = 0, writer_counter = 0,
                  length_q = 0\<rparr>, w)"
  by (simp add: Open_def os_MkdirAll_def synchronizeState_def os_ReadDir_def)

text \<open>
  C6. \<open>Commit\<close> moves the read cursor forward by one (in 64-bit arithmetic; by one as an
  integer below the largest \<open>int64\<close>) whatever the deletion of the record's file does. A
  file that is already gone makes the deletion fail with "does not exist", and then
  \<open>Commit\<close> returns no error; a successful deletion returns no error; every other
  deletion error is returned.
\<close>

theorem Commit_fail_forward:
  "reader_currentId (fst (snd (Commit q w))) = reader_currentId q + 1 \<and>
   (sint (reader_currentId q) < 2 ^ 63 - 1 \<longrightarrow>
      sint (reader_currentId (fst (snd (Commit q w)))) = sint (reader_currentId q) + 1) \<and>
   (File q \<notin> set (faulty w) \<and> map_of (files w) (File q) = None \<longrightarrow>
      fst (os_Remove w (File q)) = Some ErrNotExist) \<and>
   (fst (os_Remove w (File q)) = Some ErrNotExist \<longrightarrow> fst (Commit q w) = None) \<and>
   (fst (os_Remove w (File q)) = None \<longrightarrow> fst (Commit q w) = None) \<and>
   (\<forall>e. fst (os_Remove w (File q)) = Some e \<and> e \<noteq> ErrNotExist \<longrightarrow> fst (Commit q w) = Some e)"
proof -
  obtain r w1 where rm: "os_Remove w (directory q, data_name (reader_currentId q)) = (r, w1)"
    by (cases "os_Remove w (directory q, data_name (reader_currentId q))")
  have c: "Commit q w =
      (if IsNotExist r then None else r,
       notifyUpdate (q\<lparr>reader_currentId := reader_currentId q + 1, length_q := length_q q - 1\<rparr>), w1)"
    by (simp add: Commit_def Let_def rm)
  have cur: "reader_currentId (fst (snd (Commit q w))) = reader_currentId q + 1"
    by (simp add: c notifyUpdate_def)
  have absent: "File q \<notin> set (faulty w) \<and> map_of (files w) (File q) = None \<longrightarrow>
      fst (os_Remove w (File q)) = Some ErrNotExist"
    by (simp add: os_Remove_def)
  show ?thesis
    using cur absent sint_succ [of "reader_currentId q"]
    by (auto simp: c File_def rm IsNotExist_def)
qed

text \<open>
  The three outcomes of the deletion at the cursor \<open>0\<close>: the file is there, the file is
  gone, the path is refused.
\<close>

theorem Commit_fail_forward_witness:
  "fst (Commit \<lparr>directory = ''q'', notify = False, reader_currentId = 0, writer_counter = 1,
                 length_q = 1\<rparr>
         \<lparr>files = [((''q'', ''0.data''), ''x'')], faulty = [], names = [], trace = []\<rparr>) = None \<and>
   fst (Commit \<lparr>directory = ''q'', notify = False, reader_currentId = 0, writer_counter = 1,
                 length_q = 1\<rparr>
         \<lparr>files = [], faulty = [], names = [], trace = []\<rparr>) = None \<and>
   fst (Commit \<lparr>directory = ''q'', notify = False, reader_currentId = 0, writer_counter = 1,
                 length_q = 1\<rparr>
         \<lparr>files = [((''q'', ''0.data''), ''x'')], faulty = [(''q'', ''0.data'')], names = [],
          trace = []\<rparr>) = Some ErrIO \<and>
   sint (reader_currentId (fst (snd
     (Commit \<lparr>directory = ''q'', notify = False, reader_currentId = 0, writer_counter = 1,
               length_q = 1\<rparr>
         \<lparr>files = [((''q'', ''0.data''), ''x'')], faulty = [(''q'', ''0.data'')], names = [],
          trace = []\<rparr>)))) = 1"
  using
    Commit_fail_forward [of "\<lparr>directory = ''q'', notify = False, reader_currentId = 0,
        writer_counter = 1, length_q = 1\<rparr>"
      "\<lparr>files = [((''q'', ''0.data''), ''x'')], faulty = [], names = [], trace = []\<rparr>"]
    Commit_fail_forward [of "\<lparr>directory = ''q'', notify = False, reader_currentId = 0,
        writer_counter = 1, length_q = 1\<rparr>"
      "\<lparr>files = [], faulty = [], names = [], trace = []\<rparr>"]
    Commit_fail_forward [of "\<lparr>directory = ''q'', notify = False, reader_currentId = 0,
        writer_counter = 1, length_q = 1\<rparr>"
      "\<lparr>files = [((''q'', ''0.data''), ''x'')], faulty = [(''q'', ''0.data'')], names = [],
        trace = []\<rparr>"]
  by (simp add: os_Remove_def File_def str_defs)

text \<open>
  C9. Any number of \<open>Peek\<close> calls return the same result each and leave the queue and
  the world as they were; when the record's file is there the result is a handle to that
  file with its bytes, and when it is not the result is \<open>ErrEmptyQueue\<close>.
\<close>

theorem Peek_never_modifies:
  "Peek_times n q w = (replicate n (fst (Peek q w)), q, w) \<and>
   (File q \<notin> set (faulty w) \<and> map_of (files w) (File q) = Some b \<longrightarrow>
      fst (Peek q w) = Inr (File q, b)) \<and>
   (File q \<notin> set (faulty w) \<and> map_of (files w) (File q) = None \<longrightarrow>
      fst (Peek q w) = Inl ErrEmptyQueue)"
proof -
  have "Peek_times n q w = (replicate n (fst (Peek q w)), q, w)"
  proof (induction n)
    case 0
    show ?case by simp
  next
    case (Suc n)
    obtain r where r: "Peek q w = (r, q, w)"
      using Peek_state [of q w] by (cases "Peek q w") simp
    show ?case using Suc by (simp add: r)
  qed
  then show ?thesis by (simp add: Peek_result)
qed

theorem Peek_never_modifies_witness:
  "Peek_times 3 \<lparr>directory = ''q'', notify = False, reader_currentId = 0, writer_counter = 1,
                  length_q = 1\<rparr>
      \<lparr>files = [((''q'', ''0.data''), ''x'')], faulty = [], names = [], trace = []\<rparr> =
   (replicate 3 (Inr ((''q'', ''0.data''), ''x'')),
    \<lparr>directory = ''q'', notify = False, reader_currentId = 0, writer_counter = 1, length_q = 1\<rparr>,
    \<lparr>files = [((''q'', ''0.data''), ''x'')], faulty = [], names = [], trace = []\<rparr>)"
  using
    Peek_never_modifies [of 3 "\<lparr>directory = ''q'', notify = False, reader_currentId = 0,
        writer_counter = 1, length_q = 1\<rparr>"
      "\<lparr>files = [((''q'', ''0.data''), ''x'')], faulty = [], names = [], trace = []\<rparr>" "''x''"]
  by (simp add: File_def str_defs)

text \<open>
  C10. \<open>Commit\<close> has no guard: when \<open>Peek\<close> reports an empty queue, \<open>Commit\<close> still
  returns no error, moves the cursor forward and takes one from the length. After \<open>n\<close>
  commits on a queue opened on an empty directory, \<open>Len\<close> is \<open>-n\<close> and the cursor is
  \<open>n\<close> while the write counter is still \<open>0\<close>.
\<close>

theorem Commit_on_empty_unguarded:
  "(fst (Peek q w) = Inl ErrEmptyQueue \<longrightarrow>
      Commit q w =
        (None, q\<lparr>reader_currentId := reader_currentId q + 1, length_q := length_q q - 1,
                 notify := True\<rparr>, w)) \<and>
   (Open dir w' = (None, Some q0, w0) \<and> entries w' dir = [] \<and> faulty w' = [] \<and> n < 2 ^ 63 \<longrightarrow>
      fst (Peek q0 w0) = Inl ErrEmptyQueue \<and>
      fst (Commit_times n q0 w0) = replicate n None \<and>
      sint (Len (fst (snd (Commit_times n q0 w0)))) = - int n \<and>
      sint (reader_currentId (fst (snd (Commit_times n q0 w0)))) = int n \<and>
      sint (writer_counter (fst (snd (Commit_times n q0 w0)))) = 0 \<and>
      fst (Peek (fst (snd (Commit_times n q0 w0))) (snd (snd (Commit_times n q0 w0)))) =
        Inl ErrEmptyQueue)"
proof -
  have one: "fst (Peek q w) = Inl ErrEmptyQueue \<longrightarrow>
      Commit q w =
        (None, q\<lparr>reader_currentId := reader_currentId q + 1, length_q := length_q q - 1,
                 notify := True\<rparr>, w)"
  proof
    assume e: "fst (Peek q w) = Inl ErrEmptyQueue"
    have nf: "File q \<notin> set (faulty w)"
      using e by (auto simp: Peek_result)
    have "map_of (files w) (File q) = None"
      using e nf by (auto simp: Peek_result split: option.splits)
    with nf show "Commit q w =
        (None, q\<lparr>reader_currentId := reader_currentId q + 1, length_q := length_q q - 1,
                 notify := True\<rparr>, w)"
      by (rule Commit_absent)
  qed
  have many: "fst (Peek q0 w0) = Inl ErrEmptyQueue \<and>
      fst (Commit_times n q0 w0) = replicate n None \<and>
      sint (Len (fst (snd (Commit_times n q0 w0)))) = - int n \<and>
      sint (reader_currentId (fst (snd (Commit_times n q0 w0)))) = int n \<and>
      sint (writer_counter (fst (snd (Commit_times n q0 w0)))) = 0 \<and>
      fst (Peek (fst (snd (Commit_times n q0 w0))) (snd (snd (Commit_times n q0 w0)))) =
        Inl ErrEmptyQueue"
    if o: "Open dir w' = (None, Some q0, w0)" and e: "entries w' dir = []"
      and f: "faulty w' = []" and n: "n < 2 ^ 63"
  proof -
    from o Open_empty [OF e f]
    have q0: "q0 = \<lparr>directory = dir, notify = False, reader_currentId = 0, writer_counter = 0,
                    length_q = 0\<rparr>" and w0: "w0 = w'"
      by simp_all
    have e0: "entries w0 (directory q0) = []" using e by (simp add: q0 w0)
    have f0: "faulty w0 = []" using f by (simp add: w0)
    define qn where "qn = (if n = 0 then q0
       else q0\<lparr>reader_currentId := reader_currentId q0 + of_nat n,
               length_q := length_q q0 - of_nat n, notify := True\<rparr>)"
    have ct: "Commit_times n q0 w0 = (replicate n None, qn, w0)"
      unfolding qn_def by (rule Commit_times_empty [OF e0 f0])
    have dn: "directory qn = dir" by (simp add: qn_def q0)
    have ln: "length_q qn = - of_nat n" by (simp add: qn_def q0)
    have rn: "reader_currentId qn = of_nat n" by (simp add: qn_def q0)
    have wn: "writer_counter qn = 0" by (simp add: qn_def q0)
    have p0: "fst (Peek q0 w0) = Inl ErrEmptyQueue"
      using entries_empty_absent [OF e0] by (simp add: Peek_result File_def f0)
    have pn: "fst (Peek qn w0) = Inl ErrEmptyQueue"
      using entries_empty_absent [OF e0] by (simp add: Peek_result File_def f0 dn q0)
    show ?thesis
      using n p0 pn
      by (simp add: ct Len_def ln rn wn sint_of_nat_small sint_neg_of_nat_small)
  qed
  show ?thesis using one many by blast
qed

theorem Commit_on_empty_unguarded_witness:
  "sint (Len (fst (snd (Commit_times 3
      \<lparr>directory = ''q'', notify = False, reader_currentId = 0, writer_counter = 0, length_q = 0\<rparr>
      \<lparr>files = [], faulty = [], names = [], trace = []\<rparr>)))) = - 3 \<and>
   sint (reader_currentId (fst (snd (Commit_times 3
      \<lparr>directory = ''q'', notify = False, reader_currentId = 0, writer_counter = 0, length_q = 0\<rparr>
      \<lparr>files = [], faulty = [], names = [], trace = []\<rparr>)))) = 3 \<and>
   fst (Commit_times 3
      \<lparr>directory = ''q'', notify = False, reader_currentId = 0, writer_counter = 0, length_q = 0\<rparr>
      \<lparr>files = [], faulty = [], names = [], trace = []\<rparr>) = replicate 3 None"
  using
    Commit_on_empty_unguarded [of
      "\<lparr>directory = ''q'', notify = False, reader_currentId = 0, writer_counter = 0,
        length_q = 0\<rparr>"
      "\<lparr>files = [], faulty = [], names = [], trace = []\<rparr>"
      "''q''"
      "\<lparr>files = [], faulty = [], names = [], trace = []\<rparr>"
      "\<lparr>directory = ''q'', notify = False, reader_currentId = 0, writer_counter = 0,
        length_q = 0\<rparr>"
      "\<lparr>files = [], faulty = [], names = [], trace = []\<rparr>"
      3]
  by (simp add: Open_empty entries_def)

section \<open>Publishing\<close>

lemma pick_temp_Inr:
  "pick_temp w dir rs = (Inr tmp, w1) \<Longrightarrow>
   tmp \<notin> set (faulty w) \<and> map_of (files w) tmp = None \<and> faulty w1 = faulty w \<and>
   map_of (files w1) = (map_of (files w))(tmp \<mapsto> []) \<and> (\<exists>r. tmp = (dir, r @ tempSuffix))"
proof (induction rs)
  case Nil
  then show ?case by simp
next
  case (Cons r rs)
  then show ?case
    by (auto simp: update_conv' split: if_splits)
qed

lemma os_Remove_faulty: "faulty (snd (os_Remove w p)) = faulty w"
  by (simp add: os_Remove_def)

lemma os_Remove_files:
  "p \<notin> set (faulty w) \<Longrightarrow> map_of (files (snd (os_Remove w p))) = (map_of (files w))(p := None)"
  by (auto simp: os_Remove_def delete_conv' fun_eq_iff)

text \<open>
  C5. When the scratch file has been created and the handler returns an error, having
  touched nothing but the scratch file, \<open>Stream\<close> returns that error, the queue is the
  one it was (cursor, counter, length and pending wake-up), the scratch file is gone and
  the file system holds what it held before: no record has become visible.
\<close>

theorem Stream_handler_error:
  assumes tf: "TempFile w (directory q) = (Inr tmp, w1)"
    and h: "h tmp s w1 = (Some e, s2, w2)"
    and ff: "faulty w2 = faulty w1"
    and fm: "\<forall>p. p \<noteq> tmp \<longrightarrow> map_of (files w2) p = map_of (files w1) p"
  shows "fst (Stream q h s w) = Some e \<and>
         fst (snd (Stream q h s w)) = q \<and>
         map_of (files (snd (snd (snd (Stream q h s w))))) tmp = None \<and>
         map_of (files (snd (snd (snd (Stream q h s w))))) = map_of (files w) \<and>
         faulty (snd (snd (snd (Stream q h s w)))) = faulty w"
proof -
  from tf have pt: "pick_temp w (directory q) (names w) = (Inr tmp, w1)"
    by (simp add: TempFile_def)
  note t = pick_temp_Inr [OF pt]
  have st: "Stream q h s w = (Some e, q, s2, snd (os_Remove w2 tmp))"
    by (simp add: Stream_def tf h)
  have nf: "tmp \<notin> set (faulty w2)" using t ff by simp
  have m: "map_of (files (snd (os_Remove w2 tmp))) = (map_of (files w2))(tmp := None)"
    using nf by (rule os_Remove_files)
  have eq: "(map_of (files w2))(tmp := None) = map_of (files w)"
  proof
    fix p
    show "((map_of (files w2))(tmp := None)) p = map_of (files w) p"
    proof (cases "p = tmp")
      case True
      then show ?thesis using t by simp
    next
      case False
      then have "map_of (files w2) p = map_of (files w1) p" using fm by blast
      also have "\<dots> = map_of (files w) p" using t False by simp
      finally show ?thesis using False by simp
    qed
  qed
  show ?thesis
    using t by (simp add: st m eq os_Remove_faulty ff)
qed

text \<open>
  A handler that fails after writing: the copy of \<open>Put\<close> from a reader that yields three
  bytes and then an error, on a queue that holds one record.
\<close>

theorem Stream_handler_error_witness:
  "fst (Stream \<lparr>directory = ''q'', notify = False, reader_currentId = 0, writer_counter = 1,
                 length_q = 1\<rparr>
          (Put_handler (''par'', Some ErrIO)) ()
          \<lparr>files = [((''q'', ''0.data''), ''x'')], faulty = [], names = [''7''], trace = []\<rparr>) =
     Some (Wrapped ''dfq: put: write temp file'' ErrIO) \<and>
   fst (snd (Stream \<lparr>directory = ''q'', notify = False, reader_currentId = 0, writer_counter = 1,
                      length_q = 1\<rparr>
          (Put_handler (''par'', Some ErrIO)) ()
          \<lparr>files = [((''q'', ''0.data''), ''x'')], faulty = [], names = [''7''], trace = []\<rparr>)) =
     \<lparr>directory = ''q'', notify = False, reader_currentId = 0, writer_counter = 1, length_q = 1\<rparr> \<and>
   map_of (files (snd (snd (snd
     (Stream \<lparr>directory = ''q'', notify = False, reader_currentId = 0, writer_counter = 1,
               length_q = 1\<rparr>
          (Put_handler (''par'', Some ErrIO)) ()
          \<lparr>files = [((''q'', ''0.data''), ''x'')], faulty = [], names = [''7''], trace = []\<rparr>))))) =
     map_of [((''q'', ''0.data''), ''x'')]"
  using
    Stream_handler_error [of
      "\<lparr>files = [((''q'', ''0.data''), ''x'')], faulty = [], names = [''7''], trace = []\<rparr>"
      "\<lparr>directory = ''q'', notify = False, reader_currentId = 0, writer_counter = 1,
        length_q = 1\<rparr>"
      "(''q'', ''7.temp'')"
      "\<lparr>files = [((''q'', ''0.data''), ''x''), ((''q'', ''7.temp''), [])], faulty = [],
        names = [], trace = [Created (''q'', ''7.temp'')]\<rparr>"
      "Put_handler (''par'', Some ErrIO)" "()"
      "Wrapped ''dfq: put: write temp file'' ErrIO" "()"
      "\<lparr>files = [((''q'', ''0.data''), ''x''), ((''q'', ''7.temp''), ''par'')], faulty = [],
        names = [], trace = [Created (''q'', ''7.temp''), Written (''q'', ''7.temp'')]\<rparr>"]
  by (simp add: TempFile_def Put_handler_def io_Copy_def os_Write_def tempSuffix_def)

text \<open>
  C8. On a queue opened on an empty file system, whatever the directory and the names
  of the scratch files: after \<open>Put "x"\<close> and \<open>Put "y"\<close> the length is \<open>2\<close>; \<open>Peek\<close>
  yields the bytes \<open>x\<close> and changes nothing; after \<open>Commit\<close> the length is \<open>1\<close> and
  \<open>Peek\<close> yields \<open>y\<close>; after the second \<open>Commit\<close>, \<open>Peek\<close> returns \<open>ErrEmptyQueue\<close>.
\<close>

theorem scenario_put_put_peek_commit:
  "(case Open dir \<lparr>files = [], faulty = [], names = r1 # r2 # rs, trace = t\<rparr> of
      (e0, None, w0) \<Rightarrow> False
    | (e0, Some q0, w0) \<Rightarrow>
        (case Put q0 (''x'', None) w0 of (e1, q1, w1) \<Rightarrow>
        (case Put q1 (''y'', None) w1 of (e2, q2, w2) \<Rightarrow>
        (case Commit q2 w2 of (e3, q3, w3) \<Rightarrow>
        (case Commit q3 w3 of (e4, q4, w4) \<Rightarrow>
           e0 = None \<and> Len q0 = 0 \<and> e1 = None \<and> e2 = None \<and> Len q2 = 2 \<and>
           GetBytes q2 w2 = Inr ''x'' \<and> snd (Peek q2 w2) = (q2, w2) \<and>
           e3 = None \<and> Len q3 = 1 \<and> GetBytes q3 w3 = Inr ''y'' \<and>
           e4 = None \<and> fst (Peek q4 w4) = Inl ErrEmptyQueue)))))"
  by (simp add: Open_empty entries_def Put_def Stream_def TempFile_def Put_handler_def io_Copy_def
      os_Write_def Attach_def attachToQueue_def os_Rename_def notifyUpdate_def Len_def
      GetBytes_def Peek_def os_Open_def Commit_def Let_def os_Remove_def IsNotExist_def)

section \<open>The recovery scan on directories that hold records\<close>

text \<open>
  What the scan computes. After the first entry the two variables follow the least and
  the greatest id seen. When the first entry of the listing is a record, they start from
  its id and end as the least and the greatest id of the directory; when the first entry
  is anything else, they start from \<open>0\<close>, and \<open>0\<close> takes part in the minimum and the
  maximum. The length is their difference in both cases.
\<close>

lemma scan_tracks:
  "scan dir i ns mn mx w = (None, mn', mx', w') \<Longrightarrow> 0 < i \<Longrightarrow> sint mn \<le> sint mx \<Longrightarrow>
   sint mn' = fold min (map sint (record_ids ns)) (sint mn) \<and>
   sint mx' = fold max (map sint (record_ids ns)) (sint mx)"
proof (induction ns arbitrary: i mn mx w)
  case Nil
  then show ?case by simp
next
  case (Cons name rest)
  show ?case
  proof (cases "HasSuffix name dataSuffix")
    case True
    show ?thesis
    proof (cases "ParseInt (take (length name - length dataSuffix) name)")
      case (Inl e)
      then show ?thesis using Cons.prems True by simp
    next
      case (Inr k)
      consider "sint k > sint mx" | "\<not> sint k > sint mx" "sint k < sint mn"
        | "\<not> sint k > sint mx" "\<not> sint k < sint mn" by blast
      then show ?thesis
      proof cases
        case 1
        then have s: "scan dir (i + 1) rest mn k w = (None, mn', mx', w')"
          using Cons.prems True Inr by simp
        have "sint mn \<le> sint k" using 1 Cons.prems(3) by simp
        from Cons.IH [OF s _ this] show ?thesis
          using True Inr 1 Cons.prems(3) by (simp add: min_def max_def)
      next
        case 2
        then have s: "scan dir (i + 1) rest k mx w = (None, mn', mx', w')"
          using Cons.prems True Inr by simp
        have "sint k \<le> sint mx" using 2 by simp
        from Cons.IH [OF s _ this] show ?thesis
          using True Inr 2 by (simp add: min_def max_def)
      next
        case 3
        then have s: "scan dir (i + 1) rest mn mx w = (None, mn', mx', w')"
          using Cons.prems True Inr by simp
        from Cons.IH [OF s _ Cons.prems(3)] show ?thesis
          using True Inr 3 by (simp add: min_def max_def)
      qed
    qed
  next
    case False
    show ?thesis
    proof (cases "HasSuffix name tempSuffix")
      case t: True
      obtain r w1 where rm: "os_Remove w (dir, name) = (r, w1)"
        by (cases "os_Remove w (dir, name)")
      then have r: "r = None" using Cons.prems(1) False t by (cases r) simp_all
      then have s: "scan dir (i + 1) rest mn mx w1 = (None, mn', mx', w')"
        using Cons.prems(1) False t rm by simp
      from Cons.IH [OF s _ Cons.prems(3)] show ?thesis using False by simp
    next
      case f: False
      then have s: "scan dir (i + 1) rest mn mx w = (None, mn', mx', w')"
        using Cons.prems(1) False by simp
      from Cons.IH [OF s _ Cons.prems(3)] show ?thesis using False by simp
    qed
  qed
qed

lemma scan_record_first:
  assumes d: "HasSuffix name dataSuffix"
    and s: "scan dir 0 (name # rest) 0 0 w = (None, mn, mx, w')"
  shows "sint mn = Min (sint ` set (record_ids (name # rest))) \<and>
         sint mx = Max (sint ` set (record_ids (name # rest)))"
proof (cases "ParseInt (take (length name - length dataSuffix) name)")
  case (Inl e)
  then show ?thesis using d s by simp
next
  case (Inr k)
  then have "scan dir 1 rest k k w = (None, mn, mx, w')" using d s by simp
  from scan_tracks [OF this] have
    "sint mn = fold min (map sint (record_ids rest)) (sint k)"
    "sint mx = fold max (map sint (record_ids rest)) (sint k)" by simp_all
  moreover have "record_ids (name # rest) = k # record_ids rest" using d Inr by simp
  ultimately show ?thesis
    using Min.set_eq_fold [of "sint k" "map sint (record_ids rest)"]
      Max.set_eq_fold [of "sint k" "map sint (record_ids rest)"]
    by simp
qed

lemma scan_other_first:
  assumes d: "\<not> HasSuffix name dataSuffix"
    and s: "scan dir 0 (name # rest) 0 0 w = (None, mn, mx, w')"
  shows "sint mn = Min (insert 0 (sint ` set (record_ids rest))) \<and>
         sint mx = Max (insert 0 (sint ` set (record_ids rest)))"
proof -
  obtain w1 where "scan dir 1 rest 0 0 w1 = (None, mn, mx, w')"
  proof (cases "HasSuffix name tempSuffix")
    case True
    obtain r w1 where rm: "os_Remove w (dir, name) = (r, w1)"
      by (cases "os_Remove w (dir, name)")
    then have "r = None" using s d True by (cases r) simp_all
    then have "scan dir 1 rest 0 0 w1 = (None, mn, mx, w')" using s d True rm by simp
    then show ?thesis by (rule that)
  next
    case False
    then have "scan dir 1 rest 0 0 w = (None, mn, mx, w')" using s d by simp
    then show ?thesis by (rule that)
  qed
  from scan_tracks [OF this] have
    "sint mn = fold min (map sint (record_ids rest)) (sint (0 :: int64))"
    "sint mx = fold max (map sint (record_ids rest)) (sint (0 :: int64))" by simp_all
  then show ?thesis
    using Min.set_eq_fold [of "0 :: int" "map sint (record_ids rest)"]
      Max.set_eq_fold [of "0 :: int" "map sint (record_ids rest)"]
    by simp
qed

lemma Open_scan:
  assumes o: "Open dir w = (None, Some q, w')"
  shows "\<exists>w1. scan dir 0 (sort (entries w dir)) 0 0 w = (None, reader_currentId q, writer_counter q, w1) \<and>
              length_q q = writer_counter q - reader_currentId q"
proof -
  let ?q0 = "\<lparr>directory = dir, notify = False, reader_currentId = 0, writer_counter = 0,
              length_q = 0\<rparr>"
  have mk: "os_MkdirAll w dir = (None, w)"
    using o by (auto simp: Open_def os_MkdirAll_def split: if_splits)
  then have sy: "synchronizeState ?q0 w = (None, q, w')"
    using o by (simp add: Open_def split: prod.splits)
  have rd: "os_ReadDir w dir = Inr (sort (entries w dir))"
    using sy by (auto simp: synchronizeState_def os_ReadDir_def split: if_splits)
  obtain e mn mx w1 where sc: "scan dir 0 (sort (entries w dir)) 0 0 w = (e, mn, mx, w1)"
    by (cases "scan dir 0 (sort (entries w dir)) 0 0 w") auto
  have "e = None \<and> q = ?q0\<lparr>reader_currentId := mn, writer_counter := mx, length_q := mx - mn\<rparr>"
    using sy rd sc by (cases e) (simp_all add: synchronizeState_def)
  then show ?thesis using sc by auto
qed

lemma Open_record_first:
  assumes o: "Open dir w = (None, Some q, w')"
    and l: "sort (entries w dir) = name # rest" and d: "HasSuffix name dataSuffix"
  shows "sint (reader_currentId q) = Min (sint ` set (record_ids (sort (entries w dir)))) \<and>
         sint (writer_counter q) = Max (sint ` set (record_ids (sort (entries w dir)))) \<and>
         length_q q = writer_counter q - reader_currentId q"
proof -
  from Open_scan [OF o] obtain w1 where
    sc: "scan dir 0 (name # rest) 0 0 w = (None, reader_currentId q, writer_counter q, w1)"
    and len: "length_q q = writer_counter q - reader_currentId q"
    unfolding l by blast
  from scan_record_first [OF d sc] len show ?thesis unfolding l by simp
qed

lemma Open_other_first:
  assumes o: "Open dir w = (None, Some q, w')"
    and l: "sort (entries w dir) = name # rest" and d: "\<not> HasSuffix name dataSuffix"
  shows "sint (reader_currentId q) = Min (insert 0 (sint ` set (record_ids rest))) \<and>
         sint (writer_counter q) = Max (insert 0 (sint ` set (record_ids rest))) \<and>
         length_q q = writer_counter q - reader_currentId q"
proof -
  from Open_scan [OF o] obtain w1 where
    sc: "scan dir 0 (name # rest) 0 0 w = (None, reader_currentId q, writer_counter q, w1)"
    and len: "length_q q = writer_counter q - reader_currentId q"
    unfolding l by blast
  from scan_other_first [OF d sc] len show ?thesis by simp
qed

text \<open>
  C1. A directory with an orphaned scratch file \<open>123456789.temp\<close> and the records \<open>5\<close>
  and \<open>6\<close>. The listing is sorted by name, so the scratch file comes first; the first
  record is then not at index \<open>0\<close> and is compared with the initial \<open>min = max = 0\<close>: the
  read cursor is \<open>0\<close>, not the least id \<open>5\<close>, and \<open>Peek\<close> finds no record.
\<close>

theorem Open_scratch_first_cursor_zero:
  "os_ReadDir
     \<lparr>files = [((''q'', ''5.data''), ''a''), ((''q'', ''6.data''), ''b''),
               ((''q'', ''123456789.temp''), ''zz'')], faulty = [], names = [], trace = []\<rparr>
     ''q'' =
     Inr [''123456789.temp'', ''5.data'', ''6.data''] \<and>
   Open ''q''
     \<lparr>files = [((''q'', ''5.data''), ''a''), ((''q'', ''6.data''), ''b''),
               ((''q'', ''123456789.temp''), ''zz'')], faulty = [], names = [], trace = []\<rparr> =
     (None,
      Some \<lparr>directory = ''q'', notify = False, reader_currentId = 0, writer_counter = 6,
            length_q = 6\<rparr>,
      \<lparr>files = [((''q'', ''5.data''), ''a''), ((''q'', ''6.data''), ''b'')], faulty = [],
        names = [], trace = [Removed (''q'', ''123456789.temp'')]\<rparr>) \<and>
   fst (Peek \<lparr>directory = ''q'', notify = False, reader_currentId = 0, writer_counter = 6,
               length_q = 6\<rparr>
          \<lparr>files = [((''q'', ''5.data''), ''a''), ((''q'', ''6.data''), ''b'')], faulty = [],
            names = [], trace = [Removed (''q'', ''123456789.temp'')]\<rparr>) = Inl ErrEmptyQueue"
  by (simp add: os_defs q_defs str_defs)

text \<open>
  C2. A queue is opened on an empty directory, one record is put, and the directory is
  opened again: the scan finds the record \<open>0\<close> and sets the length to \<open>max - min = 0\<close>,
  one less than the number of records; \<open>Peek\<close> returns the record while \<open>Len\<close> is \<open>0\<close>.
\<close>

theorem Open_one_record_length_zero:
  "Open ''q'' \<lparr>files = [], faulty = [], names = [''1''], trace = []\<rparr> =
     (None,
      Some \<lparr>directory = ''q'', notify = False, reader_currentId = 0, writer_counter = 0,
            length_q = 0\<rparr>,
      \<lparr>files = [], faulty = [], names = [''1''], trace = []\<rparr>) \<and>
   Put \<lparr>directory = ''q'', notify = False, reader_currentId = 0, writer_counter = 0,
         length_q = 0\<rparr> (''x'', None)
     \<lparr>files = [], faulty = [], names = [''1''], trace = []\<rparr> =
     (None,
      \<lparr>directory = ''q'', notify = True, reader_currentId = 0, writer_counter = 1,
        length_q = 1\<rparr>,
      \<lparr>files = [((''q'', ''0.data''), ''x'')], faulty = [], names = [],
        trace = [Created (''q'', ''1.temp''), Written (''q'', ''1.temp''),
                 Renamed (''q'', ''1.temp'') (''q'', ''0.data'')]\<rparr>) \<and>
   Open ''q''
     \<lparr>files = [((''q'', ''0.data''), ''x'')], faulty = [], names = [],
       trace = [Created (''q'', ''1.temp''), Written (''q'', ''1.temp''),
                Renamed (''q'', ''1.temp'') (''q'', ''0.data'')]\<rparr> =
     (None,
      Some \<lparr>directory = ''q'', notify = False, reader_currentId = 0, writer_counter = 0,
            length_q = 0\<rparr>,
      \<lparr>files = [((''q'', ''0.data''), ''x'')], faulty = [], names = [],
        trace = [Created (''q'', ''1.temp''), Written (''q'', ''1.temp''),
                 Renamed (''q'', ''1.temp'') (''q'', ''0.data'')]\<rparr>) \<and>
   Len \<lparr>directory = ''q'', notify = False, reader_currentId = 0, writer_counter = 0,
         length_q = 0\<rparr> = 0 \<and>
   GetBytes \<lparr>directory = ''q'', notify = False, reader_currentId = 0, writer_counter = 0,
              length_q = 0\<rparr>
     \<lparr>files = [((''q'', ''0.data''), ''x'')], faulty = [], names = [],
       trace = [Created (''q'', ''1.temp''), Written (''q'', ''1.temp''),
                Renamed (''q'', ''1.temp'') (''q'', ''0.data'')]\<rparr> = Inr ''x''"
  by (simp add: os_defs q_defs str_defs)

text \<open>
  C3. A queue is opened on an empty directory, \<open>old\<close> is put (record \<open>0\<close>), the directory
  is opened again and \<open>new\<close> is put: the scan leaves the write counter at \<open>0\<close>, the id of
  the record on disk, and the second \<open>Put\<close> renames its scratch file onto \<open>0.data\<close>. The
  new record has the id \<open>0\<close> again and the bytes \<open>old\<close> are gone.
\<close>

theorem reopen_put_overwrites_record:
  "Open ''q'' \<lparr>files = [], faulty = [], names = [''1'', ''2''], trace = []\<rparr> =
     (None,
      Some \<lparr>directory = ''q'', notify = False, reader_currentId = 0, writer_counter = 0,
            length_q = 0\<rparr>,
      \<lparr>files = [], faulty = [], names = [''1'', ''2''], trace = []\<rparr>) \<and>
   Put \<lparr>directory = ''q'', notify = False, reader_currentId = 0, writer_counter = 0,
         length_q = 0\<rparr> (''old'', None)
     \<lparr>files = [], faulty = [], names = [''1'', ''2''], trace = []\<rparr> =
     (None,
      \<lparr>directory = ''q'', notify = True, reader_currentId = 0, writer_counter = 1,
        length_q = 1\<rparr>,
      \<lparr>files = [((''q'', ''0.data''), ''old'')], faulty = [], names = [''2''],
        trace = [Created (''q'', ''1.temp''), Written (''q'', ''1.temp''),
                 Renamed (''q'', ''1.temp'') (''q'', ''0.data'')]\<rparr>) \<and>
   Open ''q''
     \<lparr>files = [((''q'', ''0.data''), ''old'')], faulty = [], names = [''2''],
       trace = [Created (''q'', ''1.temp''), Written (''q'', ''1.temp''),
                Renamed (''q'', ''1.temp'') (''q'', ''0.data'')]\<rparr> =
     (None,
      Some \<lparr>directory = ''q'', notify = False, reader_currentId = 0, writer_counter = 0,
            length_q = 0\<rparr>,
      \<lparr>files = [((''q'', ''0.data''), ''old'')], faulty = [], names = [''2''],
        trace = [Created (''q'', ''1.temp''), Written (''q'', ''1.temp''),
                 Renamed (''q'', ''1.temp'') (''q'', ''0.data'')]\<rparr>) \<and>
   Put \<lparr>directory = ''q'', notify = False, reader_currentId = 0, writer_counter = 0,
         length_q = 0\<rparr> (''new'', None)
     \<lparr>files = [((''q'', ''0.data''), ''old'')], faulty = [], names = [''2''],
       trace = [Created (''q'', ''1.temp''), Written (''q'', ''1.temp''),
                Renamed (''q'', ''1.temp'') (''q'', ''0.data'')]\<rparr> =
     (None,
      \<lparr>directory = ''q'', notify = True, reader_currentId = 0, writer_counter = 1,
        length_q = 1\<rparr>,
      \<lparr>files = [((''q'', ''0.data''), ''new'')], faulty = [], names = [],
        trace = [Created (''q'', ''1.temp''), Written (''q'', ''1.temp''),
                 Renamed (''q'', ''1.temp'') (''q'', ''0.data''),
                 Created (''q'', ''2.temp''), Written (''q'', ''2.temp''),
                 Renamed (''q'', ''2.temp'') (''q'', ''0.data'')]\<rparr>)"
  by (simp add: os_defs q_defs str_defs)

section \<open>Steal\<close>

text \<open>
  The order of the mutations when nothing is refused and the source holds a record. On
  the fast path the one mutation is the rename of the source's file into the
  destination (the commit of the source then finds its file gone). On the fallback path
  the source's file is removed before the scratch file is renamed into the destination.
\<close>

lemma pick_temp_trace:
  "pick_temp w dir rs = (Inr tmp, w1) \<Longrightarrow> trace w1 = trace w @ [Created tmp]"
  by (induction rs) (auto split: if_splits)

lemma Steal_fallback_order:
  assumes f: "faulty w = []" and b: "map_of (files w) (File fq) = Some b"
    and tf: "TempFile w (directory q) = (Inr tmp, w1)"
  shows "fst (Steal q (Opaque fq) w) = None \<and>
         trace (snd (snd (snd (Steal q (Opaque fq) w)))) =
           trace w @ [Created tmp, Written tmp, Removed (File fq),
                      Renamed tmp (directory q, data_name (writer_counter q))]"
proof -
  from tf have pt: "pick_temp w (directory q) (names w) = (Inr tmp, w1)"
    by (simp add: TempFile_def)
  note t = pick_temp_Inr [OF pt]
  from t obtain r where tmp: "tmp = (directory q, r @ tempSuffix)" by blast
  have ne: "tmp \<noteq> File fq" by (simp add: tmp File_def)
  have f1: "faulty w1 = []" using t f by simp
  have b1: "map_of (files w1) (File fq) = Some b" using t b ne by simp
  have t1: "map_of (files w1) tmp = Some []" using t by simp
  have tr1: "trace w1 = trace w @ [Created tmp]" by (rule pick_temp_trace [OF pt])
  have pk: "Peek fq w1 = (Inr (File fq, b), fq, w1)"
    using f1 b1 by (simp add: Peek_def os_Open_def File_def)
  define w2 where "w2 = w1\<lparr>files := AList.update tmp b (files w1), trace := trace w1 @ [Written tmp]\<rparr>"
  have cp: "io_Copy w1 tmp (b, None) = (None, w2)"
    using f1 t1 by (simp add: io_Copy_def os_Write_def w2_def)
  have b2: "map_of (files w2) (File fq) = Some b" using b1 ne by (simp add: w2_def update_conv')
  define w3 where "w3 = w2\<lparr>files := AList.delete (File fq) (files w2),
      trace := trace w2 @ [Removed (File fq)]\<rparr>"
  define fq' where "fq' = fq\<lparr>reader_currentId := reader_currentId fq + 1,
      length_q := length_q fq - 1, notify := True\<rparr>"
  have cm: "Commit fq w2 = (None, fq', w3)"
    using f1 b2 by (simp add: Commit_def Let_def os_Remove_def File_def [symmetric] w2_def w3_def
        fq'_def IsNotExist_def notifyUpdate_def)
  have h: "Steal_handler tmp (Opaque fq) w1 = (None, Opaque fq', w3)"
    by (simp add: Steal_handler_def pk cp cm)
  have t3: "map_of (files w3) tmp = Some b"
    using ne by (simp add: w3_def w2_def delete_conv' update_conv')
  have f3: "faulty w3 = []" using f1 by (simp add: w3_def w2_def)
  obtain q3 w4 where at: "Attach q tmp w3 = (None, q3, w4)"
    and tr4: "trace w4 = trace w3 @ [Renamed tmp (directory q, data_name (writer_counter q))]"
    using f3 t3 by (simp add: Attach_def attachToQueue_def os_Rename_def Let_def)
  have "Steal q (Opaque fq) w = (None, q3, Opaque fq', w4)"
    by (simp add: Steal_def Stream_def tf h at)
  then show ?thesis by (simp add: tr4 w3_def w2_def tr1)
qed

lemma Steal_fast_order:
  assumes f: "faulty w = []" and b: "map_of (files w) (File fq) = Some b"
    and d: "directory fq \<noteq> directory q"
  shows "fst (Steal q (WithFile fq) w) = None \<and>
         trace (snd (snd (snd (Steal q (WithFile fq) w)))) =
           trace w @ [Renamed (File fq) (directory q, data_name (writer_counter q))]"
proof -
  define w1 where "w1 = w\<lparr>files := AList.update (directory q, data_name (writer_counter q)) b
        (AList.delete (File fq) (files w)),
      trace := trace w @ [Renamed (File fq) (directory q, data_name (writer_counter q))]\<rparr>"
  define q1 where "q1 = q\<lparr>writer_counter := writer_counter q + 1, length_q := length_q q + 1,
      notify := True\<rparr>"
  have at: "Attach q (File fq) w = (None, q1, w1)"
    using f b by (simp add: Attach_def attachToQueue_def os_Rename_def Let_def w1_def q1_def
        notifyUpdate_def)
  have gone: "map_of (files w1) (File fq) = None"
    using d by (simp add: w1_def update_conv' delete_conv' File_def)
  have f1: "File fq \<notin> set (faulty w1)" using f by (simp add: w1_def)
  note cm = Commit_absent [OF f1 gone]
  have "Steal q (WithFile fq) w =
      (None, q1,
       WithFile (fq\<lparr>reader_currentId := reader_currentId fq + 1, length_q := length_q fq - 1,
                   notify := True\<rparr>), w1)"
    by (simp add: Steal_def at cm)
  then show ?thesis by (simp add: w1_def)
qed

text \<open>
  C4. On the fallback path the handler passed to \<open>Stream\<close> commits the source before
  \<open>Stream\<close> attaches the scratch file. With a source that hides \<open>File\<close>, the trace has
  the removal of the source's record before the rename into the destination. With a
  source that has \<open>File\<close> and a destination whose next record name is refused, the fast
  path fails, the fallback removes the source's record, the attach fails again and the
  scratch file is deleted: \<open>Steal\<close> returns the error and the record is in neither queue.
\<close>

theorem Steal_fallback_removes_before_attach:
  "Steal \<lparr>directory = ''b'', notify = False, reader_currentId = 0, writer_counter = 0,
           length_q = 0\<rparr>
     (Opaque \<lparr>directory = ''a'', notify = False, reader_currentId = 0, writer_counter = 1,
               length_q = 1\<rparr>)
     \<lparr>files = [((''a'', ''0.data''), ''hello'')], faulty = [], names = [''1''], trace = []\<rparr> =
     (None,
      \<lparr>directory = ''b'', notify = True, reader_currentId = 0, writer_counter = 1,
        length_q = 1\<rparr>,
      Opaque \<lparr>directory = ''a'', notify = True, reader_currentId = 1, writer_counter = 1,
               length_q = 0\<rparr>,
      \<lparr>files = [((''b'', ''0.data''), ''hello'')], faulty = [], names = [],
        trace = [Created (''b'', ''1.temp''), Written (''b'', ''1.temp''),
                 Removed (''a'', ''0.data''),
                 Renamed (''b'', ''1.temp'') (''b'', ''0.data'')]\<rparr>) \<and>
   Steal \<lparr>directory = ''b'', notify = False, reader_currentId = 0, writer_counter = 0,
           length_q = 0\<rparr>
     (WithFile \<lparr>directory = ''a'', notify = False, reader_currentId = 0, writer_counter = 1,
                 length_q = 1\<rparr>)
     \<lparr>files = [((''a'', ''0.data''), ''hello'')], faulty = [(''b'', ''0.data'')],
       names = [''1''], trace = []\<rparr> =
     (Some (Wrapped ''dfq: attach to queue''
              (Wrapped ''rename temp file to queue element'' ErrIO)),
      \<lparr>directory = ''b'', notify = False, reader_currentId = 0, writer_counter = 0,
        length_q = 0\<rparr>,
      WithFile \<lparr>directory = ''a'', notify = True, reader_currentId = 1, writer_counter = 1,
                 length_q = 0\<rparr>,
      \<lparr>files = [], faulty = [(''b'', ''0.data'')], names = [],
        trace = [Created (''b'', ''1.temp''), Written (''b'', ''1.temp''),
                 Removed (''a'', ''0.data''), Removed (''b'', ''1.temp'')]\<rparr>)"
  by (simp add: Steal_def Steal_handler_def os_defs q_defs str_defs Let_def)

section \<open>The length and the records on disk\<close>

subsection \<open>Unsigned distances between 64-bit ids\<close>

lemma unat_max: "unat (- 1 :: int64) = 2 ^ 64 - 1"
  by (simp add: unsigned_minus_1_eq_mask mask_eq_exp_minus_1)

lemma unat_bound: "unat (x :: int64) < 2 ^ 64"
  using unsigned_less [of x, where 'a = nat] by simp

lemma unat_of_nat_small: "j < 2 ^ 64 \<Longrightarrow> unat (of_nat j :: int64) = j"
  by (simp add: unat_of_nat)

lemma unat_succ: "unat (x :: int64) < 2 ^ 64 - 1 \<Longrightarrow> unat (x + 1) = unat x + 1"
proof -
  assume a: "unat x < 2 ^ 64 - 1"
  have "1 + x \<noteq> 0"
  proof
    assume "1 + x = 0"
    then have "x + 1 = 0" by (simp add: add.commute)
    then have "x = - 1" by (rule max_word_wrap)
    then have "unat x = 2 ^ 64 - 1" by (simp add: unat_max)
    with a show False by simp
  qed
  then have "unat (1 + x) = Suc (unat x)" by (rule unatSuc)
  then show ?thesis by (simp add: add.commute)
qed

lemma pending_publish:
  fixes i c k :: int64
  assumes "unat (k - c) < 2 ^ 64 - 1"
  shows "(unat (i - c) < unat (k + 1 - c)) = (unat (i - c) < unat (k - c) \<or> i = k)"
proof -
  have "k + 1 - c = (k - c) + 1" by simp
  then have "unat (k + 1 - c) = unat (k - c) + 1" using unat_succ [OF assms] by metis
  moreover have "(unat (i - c) = unat (k - c)) = (i = k)"
    by (metis diff_add_cancel word_unat_eq_iff)
  ultimately show ?thesis by auto
qed

lemma pending_commit:
  fixes i c k :: int64
  assumes "k \<noteq> c"
  shows "(unat (i - (c + 1)) < unat (k - (c + 1))) = (unat (i - c) < unat (k - c) \<and> i \<noteq> c)"
proof -
  have kc: "k - c \<noteq> 0" using assms by simp
  have k1: "unat (k - (c + 1)) = unat (k - c) - 1"
    using unat_minus_one [OF kc] by (simp add: diff_diff_eq)
  have kpos: "0 < unat (k - c)" using kc by (simp add: unat_gt_0)
  show ?thesis
  proof (cases "i = c")
    case True
    have "unat (k - c) - 1 < 2 ^ 64 - 1" using unat_bound [of "k - c"] kpos by simp
    moreover have "unat (c - (c + 1)) = 2 ^ 64 - 1" by (simp add: unat_max)
    ultimately show ?thesis using True k1 by simp
  next
    case False
    then have ic: "i - c \<noteq> 0" by simp
    have i1: "unat (i - (c + 1)) = unat (i - c) - 1"
      using unat_minus_one [OF ic] by (simp add: diff_diff_eq)
    have ipos: "0 < unat (i - c)" using ic by (simp add: unat_gt_0)
    show ?thesis using False i1 k1 ipos kpos by auto
  qed
qed

lemma card_pending_set:
  fixes c :: int64
  assumes "m \<le> 2 ^ 64"
  shows "card {i. unat (i - c) < m} = m"
proof -
  have eq: "{i. unat (i - c) < m} = (\<lambda>j. of_nat j + c) ` {0..<m}"
  proof (rule set_eqI, rule iffI)
    fix i assume "i \<in> {i. unat (i - c) < m}"
    then have "unat (i - c) \<in> {0..<m}" by simp
    moreover have "i = of_nat (unat (i - c)) + c" by simp
    ultimately show "i \<in> (\<lambda>j. of_nat j + c) ` {0..<m}" by (rule rev_image_eqI)
  next
    fix i assume "i \<in> (\<lambda>j. of_nat j + c) ` {0..<m}"
    then obtain j where j: "j < m" and i: "i = of_nat j + c" by auto
    have "j < 2 ^ 64" using j assms by simp
    then have "unat (of_nat j :: int64) = j" by (rule unat_of_nat_small)
    then show "i \<in> {i. unat (i - c) < m}" using j i by simp
  qed
  have inj: "inj_on (\<lambda>j. of_nat j + c) {0..<m}"
  proof (rule inj_onI)
    fix x y assume x: "x \<in> {0..<m}" and y: "y \<in> {0..<m}"
      and e: "(of_nat x :: int64) + c = of_nat y + c"
    have "x < 2 ^ 64" "y < 2 ^ 64" using x y assms by simp_all
    then have "unat (of_nat x :: int64) = x" "unat (of_nat y :: int64) = y"
      by (simp_all add: unat_of_nat_small)
    moreover from e have "(of_nat x :: int64) = of_nat y" by simp
    ultimately show "x = y" by metis
  qed
  show ?thesis by (simp add: eq card_image [OF inj])
qed

lemma card_pending: "card (pending q) = unat (writer_counter q - reader_currentId q)"
proof -
  have "unat (writer_counter q - reader_currentId q) \<le> 2 ^ 64"
    using unat_bound [of "writer_counter q - reader_currentId q"] by simp
  then show ?thesis unfolding pending_def by (rule card_pending_set)
qed

lemma sint_unat_small: "unat (x :: int64) < 2 ^ 63 \<Longrightarrow> sint x = int (unat x)"
proof -
  assume "unat x < 2 ^ 63"
  then have "sint (of_nat (unat x) :: int64) = int (unat x)" by (rule sint_of_nat_small)
  then show ?thesis by simp
qed

subsection \<open>What each operation does to the records\<close>

lemma entries_iff: "n \<in> set (entries w dir) \<longleftrightarrow> map_of (files w) (dir, n) \<noteq> None"
proof -
  have "n \<in> set (entries w dir) \<longleftrightarrow> (dir, n) \<in> fst ` set (files w)"
    by (force simp: entries_def)
  then show ?thesis by (simp add: map_of_eq_None_iff)
qed

lemma records_iff:
  "n \<in> records w dir \<longleftrightarrow> HasSuffix n dataSuffix \<and> map_of (files w) (dir, n) \<noteq> None"
  by (auto simp: records_def entries_iff)

lemma records_same:
  "(\<And>n. HasSuffix n dataSuffix \<Longrightarrow> map_of (files w') (dir, n) = map_of (files w) (dir, n)) \<Longrightarrow>
   records w' dir = records w dir"
  by (auto simp: records_iff)

lemma pick_temp_Inl:
  "pick_temp w dir rs = (Inl e, w1) \<Longrightarrow> files w1 = files w \<and> faulty w1 = faulty w"
  by (induction rs) (auto split: if_splits)

lemma os_Remove_other:
  "p \<noteq> tmp \<Longrightarrow> map_of (files (snd (os_Remove w tmp))) p = map_of (files w) p"
  by (simp add: os_Remove_def delete_conv')

lemma Attach_cases:
  assumes f: "faulty w = []" and a: "Attach q old w = (err, q', w')"
  shows "(err \<noteq> None \<and> q' = q \<and> w' = w) \<or>
         (err = None \<and>
          q' = q\<lparr>writer_counter := writer_counter q + 1, length_q := length_q q + 1,
                 notify := True\<rparr> \<and>
          faulty w' = faulty w \<and>
          (\<exists>b. map_of (files w') =
             (map_of (files w))(old := None, (directory q, data_name (writer_counter q)) \<mapsto> b)))"
proof (cases "map_of (files w) old")
  case None
  then show ?thesis using f a
    by (auto simp: Attach_def attachToQueue_def os_Rename_def Let_def)
next
  case (Some b)
  then show ?thesis using f a
    by (auto simp: Attach_def attachToQueue_def os_Rename_def Let_def notifyUpdate_def
        update_conv' delete_conv')
qed

lemma Stream_files:
  assumes f: "faulty w = []" and so: "scratch_only h"
    and st: "Stream q h () w = (err, q', u, w')"
  shows "faulty w' = [] \<and>
         ((q' = q \<and>
           (\<forall>n. HasSuffix n dataSuffix \<longrightarrow>
              map_of (files w') (directory q, n) = map_of (files w) (directory q, n))) \<or>
          (q' = q\<lparr>writer_counter := writer_counter q + 1, length_q := length_q q + 1,
                  notify := True\<rparr> \<and>
           (\<exists>b. \<forall>n. HasSuffix n dataSuffix \<longrightarrow>
              map_of (files w') (directory q, n) =
                (if n = data_name (writer_counter q) then Some b
                 else map_of (files w) (directory q, n)))))"
proof (cases "TempFile w (directory q)")
  case (Pair r w1)
  show ?thesis
  proof (cases r)
    case (Inl e)
    with Pair have "pick_temp w (directory q) (names w) = (Inl e, w1)"
      by (simp add: TempFile_def)
    from pick_temp_Inl [OF this] have "files w1 = files w" "faulty w1 = faulty w" by simp_all
    moreover have "q' = q" "w' = w1" using st Pair Inl by (simp_all add: Stream_def)
    ultimately show ?thesis using f by simp
  next
    case (Inr tmp)
    with Pair have "pick_temp w (directory q) (names w) = (Inr tmp, w1)"
      by (simp add: TempFile_def)
    note t = pick_temp_Inr [OF this]
    from t obtain r where tmp: "tmp = (directory q, r @ tempSuffix)" by blast
    obtain e2 u2 w2 where h: "h tmp () w1 = (e2, u2, w2)" by (cases "h tmp () w1")
    have f2: "faulty w2 = []"
      using so t f h unfolding scratch_only_def by (metis snd_conv)
    have m2: "\<And>p. p \<noteq> tmp \<Longrightarrow> map_of (files w2) p = map_of (files w) p"
    proof -
      fix p assume p: "p \<noteq> tmp"
      have "map_of (files w2) p = map_of (files w1) p"
        using so p h unfolding scratch_only_def by (metis snd_conv)
      then show "map_of (files w2) p = map_of (files w) p" using t p by simp
    qed
    have dn: "\<And>n. HasSuffix n dataSuffix \<Longrightarrow> (directory q, n) \<noteq> tmp"
      using tmp temp_not_data by auto
    have failed: ?thesis if q': "q' = q" and w': "w' = snd (os_Remove w2 tmp)"
      using q' f2 by (simp add: w' os_Remove_faulty os_Remove_other dn m2)
    show ?thesis
    proof (cases e2)
      case (Some e)
      have "q' = q" and "w' = snd (os_Remove w2 tmp)"
        using st Pair Inr h Some by (simp_all add: Stream_def)
      then show ?thesis by (rule failed)
    next
      case None
      obtain e3 q3 w3 where a: "Attach q tmp w2 = (e3, q3, w3)" by (cases "Attach q tmp w2")
      from Attach_cases [OF f2 a] show ?thesis
      proof
        assume c: "e3 \<noteq> None \<and> q3 = q \<and> w3 = w2"
        then obtain e where e3: "e3 = Some e" by auto
        have "q' = q" and "w' = snd (os_Remove w2 tmp)"
          using st Pair Inr h None a c e3 by (simp_all add: Stream_def)
        then show ?thesis by (rule failed)
      next
        assume c: "e3 = None \<and>
          q3 = q\<lparr>writer_counter := writer_counter q + 1, length_q := length_q q + 1,
                 notify := True\<rparr> \<and>
          faulty w3 = faulty w2 \<and>
          (\<exists>b. map_of (files w3) =
             (map_of (files w2))(tmp := None, (directory q, data_name (writer_counter q)) \<mapsto> b))"
        then obtain b where m3: "map_of (files w3) =
             (map_of (files w2))(tmp := None, (directory q, data_name (writer_counter q)) \<mapsto> b)"
          by blast
        have q': "q' = q3" and w': "w' = w3"
          using st Pair Inr h None a c by (simp_all add: Stream_def)
        have "\<forall>n. HasSuffix n dataSuffix \<longrightarrow>
              map_of (files w') (directory q, n) =
                (if n = data_name (writer_counter q) then Some b
                 else map_of (files w) (directory q, n))"
          by (simp add: w' m3 dn m2)
        then show ?thesis using q' c f2 by (auto simp: w')
      qed
    qed
  qed
qed

lemma Put_handler_scratch_only: "scratch_only (Put_handler rd)"
  by (auto simp: scratch_only_def Put_handler_def io_Copy_def os_Write_def update_conv'
      split: option.splits)

lemma scan_no_records:
  "\<forall>n \<in> set ns. \<not> HasSuffix n dataSuffix \<Longrightarrow> scan dir i ns mn mx w = (e, mn', mx', w') \<Longrightarrow>
   mn' = mn \<and> mx' = mx \<and> faulty w' = faulty w \<and>
   (\<forall>n. HasSuffix n dataSuffix \<longrightarrow> map_of (files w') (dir, n) = map_of (files w) (dir, n))"
proof (induction ns arbitrary: i w)
  case Nil
  then show ?case by simp
next
  case (Cons name rest)
  have nd: "\<not> HasSuffix name dataSuffix" and rest: "\<forall>n \<in> set rest. \<not> HasSuffix n dataSuffix"
    using Cons.prems(1) by simp_all
  show ?case
  proof (cases "HasSuffix name tempSuffix")
    case False
    then have "scan dir (i + 1) rest mn mx w = (e, mn', mx', w')"
      using Cons.prems(2) nd by simp
    from Cons.IH [OF rest this] show ?thesis .
  next
    case True
    obtain r w1 where rm: "os_Remove w (dir, name) = (r, w1)" by (cases "os_Remove w (dir, name)")
    have w1: "w1 = snd (os_Remove w (dir, name))" using rm by simp
    have f1: "faulty w1 = faulty w" by (simp add: w1 os_Remove_faulty)
    have m1: "\<And>n. HasSuffix n dataSuffix \<Longrightarrow> map_of (files w1) (dir, n) = map_of (files w) (dir, n)"
      using nd by (auto simp: w1 intro!: os_Remove_other)
    show ?thesis
    proof (cases r)
      case (Some x)
      then have "mn' = mn" "mx' = mx" "w' = w1" using Cons.prems(2) nd True rm by simp_all
      then show ?thesis using f1 m1 by simp
    next
      case None
      then have "scan dir (i + 1) rest mn mx w1 = (e, mn', mx', w')"
        using Cons.prems(2) nd True rm by simp
      from Cons.IH [OF rest this] show ?thesis using f1 m1 by simp
    qed
  qed
qed

lemma Open_no_records:
  assumes o: "Open dir w = (None, Some q, w')" and r: "records w dir = {}"
  shows "q = \<lparr>directory = dir, notify = False, reader_currentId = 0, writer_counter = 0,
              length_q = 0\<rparr> \<and> faulty w' = faulty w \<and> records w' dir = {}"
proof -
  let ?q0 = "\<lparr>directory = dir, notify = False, reader_currentId = 0, writer_counter = 0,
              length_q = 0\<rparr>"
  have mk: "os_MkdirAll w dir = (None, w)"
    using o by (auto simp: Open_def os_MkdirAll_def split: if_splits)
  then have sy: "synchronizeState ?q0 w = (None, q, w')"
    using o by (simp add: Open_def split: prod.splits)
  have rd: "os_ReadDir w dir = Inr (sort (entries w dir))"
    using sy by (auto simp: synchronizeState_def os_ReadDir_def split: if_splits)
  obtain e mn mx w1 where sc: "scan dir 0 (sort (entries w dir)) 0 0 w = (e, mn, mx, w1)"
    by (cases "scan dir 0 (sort (entries w dir)) 0 0 w") auto
  have nd: "\<forall>n \<in> set (sort (entries w dir)). \<not> HasSuffix n dataSuffix"
    using r by (auto simp: records_def)
  note s = scan_no_records [OF nd sc]
  have e: "e = None" and q: "q = ?q0" and w': "w' = w1"
    using sy rd sc s by (auto simp: synchronizeState_def split: option.splits)
  have "records w' dir = records w dir"
    by (rule records_same) (simp add: w' s)
  then show ?thesis using q s r by (simp add: w')
qed

lemma pending_empty: "writer_counter q = reader_currentId q \<Longrightarrow> pending q = {}"
  by (simp add: pending_def)

subsection \<open>Records, seen as a map from paths to contents\<close>

text \<open>
  Several queues share one file system. What a call does to the records is stated for
  the map \<open>record_at\<close>, so that the records of the other directories are seen to stay.
\<close>

lemma records_record_at: "n \<in> records w d \<longleftrightarrow> record_at w (d, n) \<noteq> None"
  by (simp add: records_iff record_at_def)

lemma record_at_temp [simp]: "record_at w (d, r @ tempSuffix) = None"
  by (simp add: record_at_def)

lemma pick_temp_record_at:
  "pick_temp w dir rs = (r, w1) \<Longrightarrow> record_at w1 = record_at w \<and> faulty w1 = faulty w"
proof (induction rs)
  case Nil
  then show ?case by (auto simp: record_at_def fun_eq_iff)
next
  case (Cons a rs)
  then show ?case
    by (auto simp: record_at_def fun_eq_iff update_conv' split: if_splits)
qed

lemma TempFile_record_at:
  "TempFile w dir = (r, w1) \<Longrightarrow> record_at w1 = record_at w \<and> faulty w1 = faulty w"
  unfolding TempFile_def by (rule pick_temp_record_at)

lemma TempFile_name:
  "TempFile w dir = (Inr tmp, w1) \<Longrightarrow> \<not> HasSuffix (snd tmp) dataSuffix"
  using pick_temp_Inr [of w dir "names w" tmp w1] by (auto simp: TempFile_def)

lemma os_Remove_record_at:
  "p \<notin> set (faulty w) \<Longrightarrow> record_at (snd (os_Remove w p)) = (record_at w)(p := None)"
  by (auto simp: os_Remove_def record_at_def fun_eq_iff delete_conv')

lemma os_Write_record_at:
  "\<not> HasSuffix (snd p) dataSuffix \<Longrightarrow>
   record_at (snd (os_Write w p d)) = record_at w \<and> faulty (snd (os_Write w p d)) = faulty w"
  by (auto simp: os_Write_def record_at_def fun_eq_iff update_conv' split: option.splits)

lemma os_Write_ok: "faulty w = [] \<Longrightarrow> fst (os_Write w p d) = None"
  by (simp add: os_Write_def split: option.splits)

lemma Attach_record_at:
  assumes f: "faulty w = []" and a: "Attach q old w = (err, q', w')"
  shows "faulty w' = [] \<and>
         ((err \<noteq> None \<and> q' = q \<and> w' = w) \<or>
          (err = None \<and>
           q' = q\<lparr>writer_counter := writer_counter q + 1, length_q := length_q q + 1,
                  notify := True\<rparr> \<and>
           (\<exists>b. map_of (files w) old = Some b \<and>
              record_at w' =
                (record_at w)(old := None, (directory q, data_name (writer_counter q)) \<mapsto> b))))"
proof (cases "map_of (files w) old")
  case None
  then show ?thesis using f a
    by (auto simp: Attach_def attachToQueue_def os_Rename_def Let_def)
next
  case (Some b)
  then have e: "err = None"
    and q': "q' = q\<lparr>writer_counter := writer_counter q + 1, length_q := length_q q + 1,
                  notify := True\<rparr>"
    and w': "w' = w\<lparr>files := AList.update (directory q, data_name (writer_counter q)) b
                (AList.delete old (files w)),
              trace := trace w @ [Renamed old (directory q, data_name (writer_counter q))]\<rparr>"
    using f a by (auto simp: Attach_def attachToQueue_def os_Rename_def Let_def notifyUpdate_def)
  have "record_at w' =
      (record_at w)(old := None, (directory q, data_name (writer_counter q)) \<mapsto> b)"
    by (auto simp: w' record_at_def fun_eq_iff update_conv' delete_conv')
  then show ?thesis using Some f q' e by (auto simp: w')
qed

lemma Commit_record_at:
  assumes f: "faulty w = []" and c: "Commit q w = (err, q', w')"
  shows "faulty w' = [] \<and>
         q' = q\<lparr>reader_currentId := reader_currentId q + 1, length_q := length_q q - 1,
                notify := True\<rparr> \<and>
         record_at w' = (record_at w)(File q := None)"
proof -
  have w': "w' = snd (os_Remove w (File q))"
    and q': "q' = q\<lparr>reader_currentId := reader_currentId q + 1, length_q := length_q q - 1,
                notify := True\<rparr>"
    using c by (auto simp: Commit_def Let_def File_def notifyUpdate_def split: prod.splits)
  have "File q \<notin> set (faulty w)" using f by simp
  from os_Remove_record_at [OF this] show ?thesis
    using f q' by (simp add: w' os_Remove_faulty)
qed

lemma Peek_record_at:
  "faulty w = [] \<Longrightarrow> fst (Peek q w) = Inr fh \<Longrightarrow> record_at w (File q) \<noteq> None"
  by (auto simp: Peek_result record_at_def File_def split: option.splits)

lemma Peek_empty_record_at:
  "faulty w = [] \<Longrightarrow> fst (Peek q w) = Inl ErrEmptyQueue \<longleftrightarrow> record_at w (File q) = None"
  by (auto simp: Peek_result record_at_def File_def split: option.splits)

text \<open>
  One run of \<open>Stream\<close>, whatever the handler does: either no scratch file could be made
  and nothing has changed, or the handler ran on a fresh scratch file and, unless it
  left a path refused, \<open>Stream\<close> then published at most one record, under the next id.
\<close>

lemma Stream_run:
  assumes f: "faulty w = []" and st: "Stream q h s w = (err, q', s', w')"
  shows "(faulty w' = [] \<and> q' = q \<and> s' = s \<and> record_at w' = record_at w) \<or>
         (\<exists>tmp w1 e2 w2.
            \<not> HasSuffix (snd tmp) dataSuffix \<and> faulty w1 = [] \<and> record_at w1 = record_at w \<and>
            h tmp s w1 = (e2, s', w2) \<and>
            (faulty w2 = [] \<longrightarrow>
               faulty w' = [] \<and>
               ((q' = q \<and> record_at w' = record_at w2) \<or>
                (q' = q\<lparr>writer_counter := writer_counter q + 1, length_q := length_q q + 1,
                        notify := True\<rparr> \<and>
                 (\<exists>b. record_at w' =
                    (record_at w2)((directory q, data_name (writer_counter q)) \<mapsto> b))))))"
proof (cases "TempFile w (directory q)")
  case (Pair r w1)
  note t = TempFile_record_at [OF Pair]
  show ?thesis
  proof (cases r)
    case (Inl e)
    then have "q' = q" "s' = s" "w' = w1" using st Pair by (simp_all add: Stream_def)
    then show ?thesis using t f by simp
  next
    case (Inr tmp)
    have nd: "\<not> HasSuffix (snd tmp) dataSuffix" using Pair Inr by (auto dest: TempFile_name)
    have f1: "faulty w1 = []" using t f by simp
    obtain e2 s2 w2 where h: "h tmp s w1 = (e2, s2, w2)" by (cases "h tmp s w1")
    have rt: "\<And>v. faulty v = [] \<Longrightarrow> record_at (snd (os_Remove v tmp)) = record_at v"
    proof -
      fix v :: world assume "faulty v = []"
      then have "tmp \<notin> set (faulty v)" by simp
      from os_Remove_record_at [OF this] have
        "record_at (snd (os_Remove v tmp)) = (record_at v)(tmp := None)" .
      moreover have "record_at v tmp = None" using nd by (simp add: record_at_def)
      ultimately show "record_at (snd (os_Remove v tmp)) = record_at v" by (auto simp: fun_eq_iff)
    qed
    have body: "faulty w' = [] \<and>
               ((q' = q \<and> record_at w' = record_at w2) \<or>
                (q' = q\<lparr>writer_counter := writer_counter q + 1, length_q := length_q q + 1,
                        notify := True\<rparr> \<and>
                 (\<exists>b. record_at w' =
                    (record_at w2)((directory q, data_name (writer_counter q)) \<mapsto> b))))"
      if f2: "faulty w2 = []"
    proof (cases e2)
      case (Some e)
      then have "q' = q" "w' = snd (os_Remove w2 tmp)"
        using st Pair Inr h by (simp_all add: Stream_def)
      then show ?thesis using rt [OF f2] f2 by (simp add: os_Remove_faulty)
    next
      case None
      obtain e3 q3 w3 where a: "Attach q tmp w2 = (e3, q3, w3)" by (cases "Attach q tmp w2")
      note ar = Attach_record_at [OF f2 a]
      then have f3: "faulty w3 = []" by simp
      show ?thesis
      proof (cases e3)
        case (Some e)
        then have q': "q' = q3" and w': "w' = snd (os_Remove w3 tmp)"
          using st Pair Inr h None a by (simp_all add: Stream_def)
        from ar show ?thesis
        proof (elim conjE disjE exE)
          assume "q3 = q" "w3 = w2"
          then show ?thesis using q' w' rt [OF f2] f2 by (simp add: os_Remove_faulty)
        next
          fix b
          assume "q3 = q\<lparr>writer_counter := writer_counter q + 1, length_q := length_q q + 1,
                  notify := True\<rparr>"
            and r3: "record_at w3 =
                (record_at w2)(tmp := None, (directory q, data_name (writer_counter q)) \<mapsto> b)"
          moreover have "record_at w2 tmp = None" using nd by (simp add: record_at_def)
          then have "(record_at w2)(tmp := None) = record_at w2" by (auto simp: fun_eq_iff)
          ultimately show ?thesis using q' w' rt [OF f3] f3 by (auto simp: os_Remove_faulty)
        qed
      next
        case e3: None
        then have q': "q' = q3" and w': "w' = w3"
          using st Pair Inr h None a by (simp_all add: Stream_def)
        from ar show ?thesis
        proof (elim conjE disjE exE)
          assume "q3 = q" "w3 = w2"
          then show ?thesis using q' w' f2 by simp
        next
          fix b
          assume "q3 = q\<lparr>writer_counter := writer_counter q + 1, length_q := length_q q + 1,
                  notify := True\<rparr>"
            and r3: "record_at w3 =
                (record_at w2)(tmp := None, (directory q, data_name (writer_counter q)) \<mapsto> b)"
          moreover have "record_at w2 tmp = None" using nd by (simp add: record_at_def)
          then have "(record_at w2)(tmp := None) = record_at w2" by (auto simp: fun_eq_iff)
          ultimately show ?thesis using q' w' f3 by auto
        qed
      qed
    qed
    have s': "s' = s2" using st Pair Inr h by (auto simp: Stream_def split: option.splits prod.splits)
    show ?thesis
      using nd f1 t h body unfolding s' by blast
  qed
qed

lemma scratch_only_record_at:
  assumes so: "scratch_only h" and nd: "\<not> HasSuffix (snd tmp) dataSuffix"
    and h: "h tmp () w1 = (e2, u, w2)"
  shows "faulty w2 = faulty w1 \<and> record_at w2 = record_at w1"
proof -
  have a: "faulty w2 = faulty w1"
    and b: "\<And>p. p \<noteq> tmp \<Longrightarrow> map_of (files w2) p = map_of (files w1) p"
    using so h unfolding scratch_only_def by (metis snd_conv)+
  have "record_at w2 = record_at w1"
  proof
    fix p show "record_at w2 p = record_at w1 p"
      using b [of p] nd by (cases "p = tmp") (auto simp: record_at_def)
  qed
  with a show ?thesis by simp
qed

lemma Steal_handler_record_at:
  assumes f: "faulty w1 = []" and nd: "\<not> HasSuffix (snd tmp) dataSuffix"
    and h: "Steal_handler tmp src w1 = (e2, src', w2)"
  shows "faulty w2 = [] \<and>
         ((impl src' = impl src \<and> record_at w2 = record_at w1) \<or>
          (record_at w1 (File (impl src)) \<noteq> None \<and>
           impl src' = (impl src)\<lparr>reader_currentId := reader_currentId (impl src) + 1,
                                  length_q := length_q (impl src) - 1, notify := True\<rparr> \<and>
           record_at w2 = (record_at w1)(File (impl src) := None)))"
proof -
  have ims: "\<And>g. impl (set_impl src g) = g" by (cases src) simp_all
  obtain r where pk: "Peek (impl src) w1 = (r, impl src, w1)"
    using Peek_state [of "impl src" w1] by (cases "Peek (impl src) w1") simp
  show ?thesis
  proof (cases r)
    case (Inl e)
    then have "src' = set_impl src (impl src)" "w2 = w1"
      using h pk by (simp_all add: Steal_handler_def)
    then show ?thesis using f by (simp add: ims)
  next
    case (Inr inp)
    then have present: "record_at w1 (File (impl src)) \<noteq> None"
      using pk Peek_record_at [OF f, of "impl src" inp] by simp
    define wa where "wa = snd (os_Write w1 tmp (snd inp))"
    have cp: "io_Copy w1 tmp (snd inp, None) = (None, wa)"
      using os_Write_ok [OF f, of tmp "snd inp"]
      by (cases "os_Write w1 tmp (snd inp)") (simp add: io_Copy_def wa_def)
    have wr: "record_at wa = record_at w1" "faulty wa = []"
      using os_Write_record_at [OF nd, of w1 "snd inp"] f by (simp_all add: wa_def)
    obtain e3 g w3 where cm: "Commit (impl src) wa = (e3, g, w3)"
      by (cases "Commit (impl src) wa")
    have "src' = set_impl src g" "w2 = w3"
      using h pk Inr cp cm by (simp_all add: Steal_handler_def)
    then show ?thesis
      using Commit_record_at [OF wr(2) cm] wr(1) present by (simp add: ims)
  qed
qed

subsection \<open>The invariant is kept by every call\<close>

lemma inv_same:
  assumes i: "queue_inv q w" and f: "faulty w' = []"
    and r: "\<And>n. record_at w' (directory q, n) = record_at w (directory q, n)"
  shows "queue_inv q w'"
proof -
  have "records w' (directory q) = records w (directory q)"
    by (auto simp: records_record_at r)
  then show ?thesis using i f by (simp add: queue_inv_def)
qed

lemma inv_notify: "queue_inv q w \<Longrightarrow> queue_inv (q\<lparr>notify := b\<rparr>) w"
  by (simp add: queue_inv_def pending_def)

lemma inv_publish:
  assumes i: "queue_inv q w" and l: "sint (Len q) < 2 ^ 63 - 1" and f: "faulty w' = []"
    and r: "\<And>n. record_at w' (directory q, n) =
              (if n = data_name (writer_counter q) then Some b else record_at w (directory q, n))"
  shows "queue_inv (q\<lparr>writer_counter := writer_counter q + 1, length_q := length_q q + 1,
                     notify := True\<rparr>) w'"
proof -
  let ?q' = "q\<lparr>writer_counter := writer_counter q + 1, length_q := length_q q + 1,
               notify := True\<rparr>"
  have len: "sint (length_q q) = int (unat (writer_counter q - reader_currentId q))"
    using i by (simp add: queue_inv_def sint_unat_small)
  have "int (unat (writer_counter q - reader_currentId q)) < 9223372036854775807"
    using l len by (simp add: Len_def)
  then have "unat (writer_counter q - reader_currentId q) < 9223372036854775807"
    by linarith
  then have small: "unat (writer_counter q - reader_currentId q) < 2 ^ 63 - 1"
    and small': "unat (writer_counter q - reader_currentId q) < 2 ^ 64 - 1"
    by simp_all
  have rec: "records w' (directory q) =
      insert (data_name (writer_counter q)) (records w (directory q))"
    by (auto simp: records_record_at r split: if_splits)
  have p: "pending ?q' = insert (writer_counter q) (pending q)"
    using pending_publish [OF small'] by (auto simp: pending_def)
  have u: "unat (writer_counter q + 1 - reader_currentId q) =
      unat (writer_counter q - reader_currentId q) + 1"
    using unat_succ [OF small'] by (simp add: add_diff_eq [symmetric] add.commute)
  show ?thesis using i f rec p u small
    by (simp add: queue_inv_def)
qed

lemma inv_consume:
  assumes i: "queue_inv q w" and pr: "record_at w (File q) \<noteq> None" and f: "faulty w' = []"
    and r: "\<And>n. record_at w' (directory q, n) =
              (if n = data_name (reader_currentId q) then None else record_at w (directory q, n))"
  shows "queue_inv (q\<lparr>reader_currentId := reader_currentId q + 1, length_q := length_q q - 1,
                     notify := True\<rparr>) w'"
proof -
  let ?q' = "q\<lparr>reader_currentId := reader_currentId q + 1, length_q := length_q q - 1,
               notify := True\<rparr>"
  have "data_name (reader_currentId q) \<in> records w (directory q)"
    using pr by (simp add: records_record_at File_def)
  then have "data_name (reader_currentId q) \<in> data_name ` pending q"
    using i by (simp add: queue_inv_def)
  then have cp: "reader_currentId q \<in> pending q" by auto
  then have ne: "writer_counter q \<noteq> reader_currentId q" by (auto simp: pending_def)
  have p: "pending ?q' = pending q - {reader_currentId q}"
    using pending_commit [OF ne] by (auto simp: pending_def)
  have u: "unat (writer_counter q - (reader_currentId q + 1)) =
      unat (writer_counter q - reader_currentId q) - 1"
    using unat_minus_one [of "writer_counter q - reader_currentId q"] ne
    by (simp add: diff_diff_eq)
  have img: "data_name ` (pending q - {reader_currentId q}) =
      data_name ` pending q - {data_name (reader_currentId q)}"
    by auto
  have b: "unat (writer_counter q - (reader_currentId q + 1)) < 2 ^ 63"
  proof -
    have "unat (writer_counter q - reader_currentId q) < 2 ^ 63" using i by (simp add: queue_inv_def)
    then show ?thesis unfolding u by (rule less_imp_diff_less)
  qed
  have l: "length_q q - 1 = writer_counter q - (reader_currentId q + 1)"
    using i by (simp add: queue_inv_def diff_diff_eq)
  have "records w' (directory q) = records w (directory q) - {data_name (reader_currentId q)}"
    by (auto simp: records_record_at r split: if_splits)
  then have "records w' (directory q) = data_name ` pending q - {data_name (reader_currentId q)}"
    using i by (simp add: queue_inv_def)
  then have rr: "records w' (directory q) = data_name ` pending ?q'"
    unfolding p img .
  show ?thesis using f b l rr
    by (simp add: queue_inv_def)
qed

lemma system_step:
  assumes s: "system_inv qs w" and q: "qs (directory q) = Some q"
    and d: "directory q' = directory q" and i: "queue_inv q' w'"
    and o: "\<And>d r n. qs d = Some r \<Longrightarrow> d \<noteq> directory q \<Longrightarrow>
              record_at w' (d, n) = record_at w (d, n)"
  shows "system_inv (qs(directory q \<mapsto> q')) w'"
proof -
  have f: "faulty w' = []" using i by (simp add: queue_inv_def)
  have "directory r = d' \<and> queue_inv r w'" if r: "(qs(directory q \<mapsto> q')) d' = Some r" for d' r
  proof (cases "d' = directory q")
    case True
    then show ?thesis using r d i by simp
  next
    case False
    then have qr: "qs d' = Some r" using r by simp
    then have dr: "directory r = d'" and ir: "queue_inv r w" using s by (auto simp: system_inv_def)
    have "queue_inv r w'"
      by (rule inv_same [OF ir f]) (simp add: dr o [OF qr False])
    then show ?thesis using dr by simp
  qed
  with f show ?thesis unfolding system_inv_def by blast
qed

lemma system_Stream:
  assumes s: "system_inv qs w" and q: "qs (directory q) = Some q"
    and l: "sint (Len q) < 2 ^ 63 - 1" and so: "scratch_only h"
    and st: "Stream q h () w = (err, q', u, w')"
  shows "system_inv (qs(directory q \<mapsto> q')) w'"
proof -
  have f: "faulty w = []" and i: "queue_inv q w" using s q by (auto simp: system_inv_def)
  from Stream_run [OF f st] show ?thesis
  proof (elim disjE exE conjE)
    assume a: "faulty w' = []" "q' = q" "record_at w' = record_at w"
    show ?thesis
      by (rule system_step [OF s q]) (simp_all add: a inv_same [OF i])
  next
    fix tmp w1 e2 w2
    assume nd: "\<not> HasSuffix (snd tmp) dataSuffix" and f1: "faulty w1 = []"
      and r1: "record_at w1 = record_at w" and h: "h tmp () w1 = (e2, u, w2)"
      and rest: "faulty w2 = [] \<longrightarrow>
               faulty w' = [] \<and>
               ((q' = q \<and> record_at w' = record_at w2) \<or>
                (q' = q\<lparr>writer_counter := writer_counter q + 1, length_q := length_q q + 1,
                        notify := True\<rparr> \<and>
                 (\<exists>b. record_at w' =
                    (record_at w2)((directory q, data_name (writer_counter q)) \<mapsto> b))))"
    from scratch_only_record_at [OF so nd h] f1 r1
    have f2: "faulty w2 = []" and r2: "record_at w2 = record_at w" by simp_all
    from rest f2 have f': "faulty w' = []" by simp
    from rest f2 show ?thesis
    proof (elim impE conjE disjE exE)
      show "faulty w2 = []" by (rule f2)
    next
      assume a: "q' = q" "record_at w' = record_at w2"
      show ?thesis
        by (rule system_step [OF s q]) (simp_all add: a r2 f' inv_same [OF i])
    next
      fix b
      assume a: "q' = q\<lparr>writer_counter := writer_counter q + 1, length_q := length_q q + 1,
                        notify := True\<rparr>"
        and r: "record_at w' = (record_at w2)((directory q, data_name (writer_counter q)) \<mapsto> b)"
      have "queue_inv q' w'" unfolding a
        by (rule inv_publish [OF i l f', of b]) (simp add: r r2)
      then show ?thesis
        by (intro system_step [OF s q]) (simp_all add: a r r2)
    qed
  qed
qed

lemma system_Put:
  assumes s: "system_inv qs w" and q: "qs (directory q) = Some q"
    and l: "sint (Len q) < 2 ^ 63 - 1" and pt: "Put q rd w = (err, q', w')"
  shows "system_inv (qs(directory q \<mapsto> q')) w'"
proof -
  obtain u where "Stream q (Put_handler rd) () w = (err, q', u, w')"
    using pt by (auto simp: Put_def split: prod.splits)
  from system_Stream [OF s q l Put_handler_scratch_only this] show ?thesis .
qed

lemma system_Attach:
  assumes s: "system_inv qs w" and q: "qs (directory q) = Some q"
    and l: "sint (Len q) < 2 ^ 63 - 1"
    and ext: "qs (fst file) = None \<or> \<not> HasSuffix (snd file) dataSuffix"
    and a: "Attach q file w = (err, q', w')"
  shows "system_inv (qs(directory q \<mapsto> q')) w'"
proof -
  have f: "faulty w = []" and i: "queue_inv q w" using s q by (auto simp: system_inv_def)
  have keep: "((record_at w)(file := None)) (d, n) = record_at w (d, n)"
    if "qs d = Some r" for d r n
  proof (cases "(d, n) = file")
    case True
    then have "qs (fst file) = Some r" using that by auto
    with ext have "\<not> HasSuffix (snd file) dataSuffix" by simp
    then have "record_at w file = None" by (simp add: record_at_def)
    then show ?thesis using True by simp
  next
    case False
    then show ?thesis by simp
  qed
  from Attach_record_at [OF f a] show ?thesis
  proof (elim conjE disjE exE)
    assume "faulty w' = []" "q' = q" "w' = w"
    then show ?thesis
      by (intro system_step [OF s q]) (simp_all add: i)
  next
    fix b
    assume f': "faulty w' = []"
      and q': "q' = q\<lparr>writer_counter := writer_counter q + 1, length_q := length_q q + 1,
                  notify := True\<rparr>"
      and r: "record_at w' =
                (record_at w)(file := None, (directory q, data_name (writer_counter q)) \<mapsto> b)"
    have "queue_inv q' w'" unfolding q'
    proof (rule inv_publish [OF i l f', of b])
      fix n
      show "record_at w' (directory q, n) =
          (if n = data_name (writer_counter q) then Some b else record_at w (directory q, n))"
        using keep [OF q, of n] by (simp add: r)
    qed
    moreover have "record_at w' (d, n) = record_at w (d, n)"
      if "qs d = Some r" "d \<noteq> directory q" for d r n
      using keep [OF that(1), of n] that(2) by (simp add: r)
    ultimately show ?thesis
      by (intro system_step [OF s q]) (simp_all add: q')
  qed
qed

lemma system_Commit:
  assumes s: "system_inv qs w" and q: "qs (directory q) = Some q"
    and pk: "fst (Peek q w) = Inr fh" and c: "Commit q w = (err, q', w')"
  shows "system_inv (qs(directory q \<mapsto> q')) w'"
proof -
  have f: "faulty w = []" and i: "queue_inv q w" using s q by (auto simp: system_inv_def)
  note cr = Commit_record_at [OF f c]
  have pr: "record_at w (File q) \<noteq> None" by (rule Peek_record_at [OF f pk])
  have f': "faulty w' = []" and r: "record_at w' = (record_at w)(File q := None)"
    and q': "q' = q\<lparr>reader_currentId := reader_currentId q + 1, length_q := length_q q - 1,
                notify := True\<rparr>"
    using cr by simp_all
  have "queue_inv q' w'" unfolding q'
    by (rule inv_consume [OF i pr f']) (simp add: r File_def)
  then show ?thesis
    by (intro system_step [OF s q]) (simp_all add: q' r File_def)
qed

lemma os_Remove_scratch:
  "\<not> HasSuffix (snd p) dataSuffix \<Longrightarrow> record_at (snd (os_Remove w p)) = record_at w"
  by (auto simp: os_Remove_def record_at_def fun_eq_iff delete_conv')

lemma scan_keeps_records:
  "\<forall>n \<in> set ns. \<not> HasSuffix n dataSuffix \<Longrightarrow> scan dir i ns mn mx w = (e, mn', mx', w') \<Longrightarrow>
   record_at w' = record_at w"
proof (induction ns arbitrary: i w)
  case Nil
  then show ?case by simp
next
  case (Cons name rest)
  have nd: "\<not> HasSuffix name dataSuffix" and rest: "\<forall>n \<in> set rest. \<not> HasSuffix n dataSuffix"
    using Cons.prems(1) by simp_all
  show ?case
  proof (cases "HasSuffix name tempSuffix")
    case False
    then have "scan dir (i + 1) rest mn mx w = (e, mn', mx', w')"
      using Cons.prems(2) nd by simp
    from Cons.IH [OF rest this] show ?thesis .
  next
    case True
    obtain r w1 where rm: "os_Remove w (dir, name) = (r, w1)" by (cases "os_Remove w (dir, name)")
    have w1: "record_at w1 = record_at w"
      using os_Remove_scratch [of "(dir, name)" w] nd rm by simp
    show ?thesis
    proof (cases r)
      case (Some x)
      then have "w' = w1" using Cons.prems(2) nd True rm by simp
      then show ?thesis using w1 by simp
    next
      case None
      then have "scan dir (i + 1) rest mn mx w1 = (e, mn', mx', w')"
        using Cons.prems(2) nd True rm by simp
      from Cons.IH [OF rest this] show ?thesis using w1 by simp
    qed
  qed
qed

lemma Open_keeps_records:
  assumes o: "Open dir w = (None, Some q, w')" and r: "records w dir = {}"
  shows "record_at w' = record_at w"
proof -
  have mk: "os_MkdirAll w dir = (None, w)"
    using o by (auto simp: Open_def os_MkdirAll_def split: if_splits)
  then obtain q0 where sy: "synchronizeState q0 w = (None, q, w')" and d0: "directory q0 = dir"
    using o by (auto simp: Open_def split: prod.splits)
  have rd: "os_ReadDir w dir = Inr (sort (entries w dir))"
    using sy d0 by (auto simp: synchronizeState_def os_ReadDir_def split: if_splits)
  obtain e mn mx w1 where sc: "scan dir 0 (sort (entries w dir)) 0 0 w = (e, mn, mx, w1)"
    by (cases "scan dir 0 (sort (entries w dir)) 0 0 w") auto
  have nd: "\<forall>n \<in> set (sort (entries w dir)). \<not> HasSuffix n dataSuffix"
    using r by (auto simp: records_def)
  have "w' = w1" using sy rd sc d0 by (auto simp: synchronizeState_def split: option.splits)
  then show ?thesis using scan_keeps_records [OF nd sc] by simp
qed

lemma system_Open:
  assumes s: "system_inv qs w" and n: "qs dir = None" and r: "records w dir = {}"
    and o: "Open dir w = (None, Some q, w')"
  shows "system_inv (qs(dir \<mapsto> q)) w'"
proof -
  have f: "faulty w = []" using s by (simp add: system_inv_def)
  note on = Open_no_records [OF o r]
  have f': "faulty w' = []" using on f by simp
  have k: "record_at w' = record_at w" by (rule Open_keeps_records [OF o r])
  have iq: "directory q = dir \<and> queue_inv q w'"
    using on f' by (simp add: queue_inv_def pending_empty)
  have "directory g = d \<and> queue_inv g w'" if g: "(qs(dir \<mapsto> q)) d = Some g" for d g
  proof (cases "d = dir")
    case True
    then show ?thesis using g iq by simp
  next
    case False
    then have "qs d = Some g" using g by simp
    then have "directory g = d" "queue_inv g w" using s by (auto simp: system_inv_def)
    then show ?thesis using inv_same [of g w w'] f' k by simp
  qed
  with f' show ?thesis unfolding system_inv_def by blast
qed

text \<open>
  \<open>Steal\<close> on both of its paths: the receiving queue gains at most one record, under its
  next id; the source loses at most the record at its cursor, and then its cursor has
  moved on; the records of every other directory stay.
\<close>

lemma Steal_record_at:
  assumes f: "faulty w = []" and ne: "directory (impl src) \<noteq> directory q"
    and st: "Steal q src w = (err, q', src', w')"
  shows "faulty w' = [] \<and>
    ((q' = q \<and> (\<forall>n. record_at w' (directory q, n) = record_at w (directory q, n))) \<or>
     (q' = q\<lparr>writer_counter := writer_counter q + 1, length_q := length_q q + 1,
             notify := True\<rparr> \<and>
      (\<exists>b. \<forall>n. record_at w' (directory q, n) =
         (if n = data_name (writer_counter q) then Some b else record_at w (directory q, n))))) \<and>
    ((impl src' = impl src \<and>
      (\<forall>n. record_at w' (directory (impl src), n) = record_at w (directory (impl src), n))) \<or>
     (record_at w (File (impl src)) \<noteq> None \<and>
      impl src' = (impl src)\<lparr>reader_currentId := reader_currentId (impl src) + 1,
                             length_q := length_q (impl src) - 1, notify := True\<rparr> \<and>
      (\<forall>n. record_at w' (directory (impl src), n) =
         (if n = data_name (reader_currentId (impl src)) then None
          else record_at w (directory (impl src), n))))) \<and>
    (\<forall>d n. d \<noteq> directory q \<longrightarrow> d \<noteq> directory (impl src) \<longrightarrow>
       record_at w' (d, n) = record_at w (d, n))"
proof -
  let ?P = "(directory q, data_name (writer_counter q))"
  let ?F = "File (impl src)"
  let ?qp = "q\<lparr>writer_counter := writer_counter q + 1, length_q := length_q q + 1,
             notify := True\<rparr>"
  let ?fm = "(impl src)\<lparr>reader_currentId := reader_currentId (impl src) + 1,
                             length_q := length_q (impl src) - 1, notify := True\<rparr>"
  have summary: ?thesis
    if "faulty w' = []"
      and "(q' = q \<and> impl src' = impl src \<and> record_at w' = record_at w) \<or>
           (q' = ?qp \<and> impl src' = impl src \<and> (\<exists>b. record_at w' = (record_at w)(?P \<mapsto> b))) \<or>
           (q' = q \<and> impl src' = ?fm \<and> record_at w ?F \<noteq> None \<and>
              record_at w' = (record_at w)(?F := None)) \<or>
           (q' = ?qp \<and> impl src' = ?fm \<and> record_at w ?F \<noteq> None \<and>
              (\<exists>b. record_at w' = (record_at w)(?F := None, ?P \<mapsto> b)))"
    using that(2)
  proof (elim disjE conjE exE)
    assume "q' = q" "impl src' = impl src" "record_at w' = record_at w"
    then show ?thesis using that(1) by simp
  next
    fix b assume "q' = ?qp" "impl src' = impl src" "record_at w' = (record_at w)(?P \<mapsto> b)"
    then show ?thesis using that(1) ne by auto
  next
    assume "q' = q" "impl src' = ?fm" "record_at w ?F \<noteq> None"
      "record_at w' = (record_at w)(?F := None)"
    then show ?thesis using that(1) ne by (auto simp: File_def)
  next
    fix b assume "q' = ?qp" "impl src' = ?fm" "record_at w ?F \<noteq> None"
      "record_at w' = (record_at w)(?F := None, ?P \<mapsto> b)"
    then show ?thesis using that(1) ne by (auto simp: File_def)
  qed
  have fallback: ?thesis if st': "Stream q Steal_handler src w = (err, q', src', w')"
  proof -
    from Stream_run [OF f st'] show ?thesis
    proof (elim disjE exE conjE)
      assume "faulty w' = []" "q' = q" "src' = src" "record_at w' = record_at w"
      then show ?thesis by (intro summary) simp_all
    next
      fix tmp w1 e2 w2
      assume nd: "\<not> HasSuffix (snd tmp) dataSuffix" and f1: "faulty w1 = []"
        and r1: "record_at w1 = record_at w" and h: "Steal_handler tmp src w1 = (e2, src', w2)"
        and rest: "faulty w2 = [] \<longrightarrow>
               faulty w' = [] \<and>
               ((q' = q \<and> record_at w' = record_at w2) \<or>
                (q' = ?qp \<and> (\<exists>b. record_at w' = (record_at w2)(?P \<mapsto> b))))"
      note hr = Steal_handler_record_at [OF f1 nd h]
      then have f2: "faulty w2 = []" by simp
      with rest have f': "faulty w' = []"
        and pub: "(q' = q \<and> record_at w' = record_at w2) \<or>
                (q' = ?qp \<and> (\<exists>b. record_at w' = (record_at w2)(?P \<mapsto> b)))"
        by simp_all
      from hr have "(impl src' = impl src \<and> record_at w2 = record_at w) \<or>
          (record_at w ?F \<noteq> None \<and> impl src' = ?fm \<and> record_at w2 = (record_at w)(?F := None))"
        unfolding r1 by simp
      with pub show ?thesis
        by (intro summary [OF f']) auto
    qed
  qed
  show ?thesis
  proof (cases src)
    case (Opaque g)
    then have "Stream q Steal_handler src w = (err, q', src', w')" using st by (simp add: Steal_def)
    then show ?thesis by (rule fallback)
  next
    case (WithFile fq)
    obtain e1 q1 w1 where a: "Attach q (File fq) w = (e1, q1, w1)"
      by (cases "Attach q (File fq) w")
    note ar = Attach_record_at [OF f a]
    show ?thesis
    proof (cases e1)
      case (Some e)
      then have fails: "q1 = q \<and> w1 = w" using ar by auto
      have "Stream q Steal_handler src w = (err, q', src', w')"
        using st WithFile a Some fails by (simp add: Steal_def)
      then show ?thesis by (rule fallback)
    next
      case None
      then have q1: "q1 = ?qp" using ar by auto
      obtain e2 f2 w2 where c: "Commit fq w1 = (e2, f2, w2)" by (cases "Commit fq w1")
      have res: "q' = q1" "src' = WithFile f2" "w' = w2"
        using st WithFile a None c by (simp_all add: Steal_def)
      from ar have f1: "faulty w1 = []" by simp
      note cr = Commit_record_at [OF f1 c]
      from ar None obtain b where b: "map_of (files w) (File fq) = Some b"
        and r1: "record_at w1 = (record_at w)(File fq := None, ?P \<mapsto> b)"
        by auto
      have pres: "record_at w (File fq) \<noteq> None"
        using b by (simp add: record_at_def File_def)
      have neq: "File fq \<noteq> ?P" using ne WithFile by (simp add: File_def)
      have "record_at w' = (record_at w)(File fq := None, ?P \<mapsto> b)"
        using cr r1 neq by (auto simp: res fun_eq_iff)
      then show ?thesis
        using cr pres q1 WithFile by (intro summary) (auto simp: res)
    qed
  qed
qed

lemma system_Steal:
  assumes s: "system_inv qs w" and q: "qs (directory q) = Some q"
    and g: "qs (directory (impl src)) = Some (impl src)"
    and ne: "directory (impl src) \<noteq> directory q"
    and l: "sint (Len q) < 2 ^ 63 - 1"
    and st: "Steal q src w = (err, q', src', w')"
  shows "system_inv (qs(directory q \<mapsto> q', directory (impl src) \<mapsto> impl src')) w'"
proof -
  have f: "faulty w = []" and iq: "queue_inv q w" and ig: "queue_inv (impl src) w"
    using s q g by (auto simp: system_inv_def)
  note sr = Steal_record_at [OF f ne st]
  then have f': "faulty w' = []" by simp
  have srq: "(q' = q \<and>
      (\<forall>n. record_at w' (directory q, n) = record_at w (directory q, n))) \<or>
      (q' = q\<lparr>writer_counter := writer_counter q + 1, length_q := length_q q + 1,
             notify := True\<rparr> \<and>
      (\<exists>b. \<forall>n. record_at w' (directory q, n) =
         (if n = data_name (writer_counter q) then Some b else record_at w (directory q, n))))"
    using sr by blast
  have srg: "(impl src' = impl src \<and>
      (\<forall>n. record_at w' (directory (impl src), n) = record_at w (directory (impl src), n))) \<or>
      (record_at w (File (impl src)) \<noteq> None \<and>
       impl src' = (impl src)\<lparr>reader_currentId := reader_currentId (impl src) + 1,
                             length_q := length_q (impl src) - 1, notify := True\<rparr> \<and>
       (\<forall>n. record_at w' (directory (impl src), n) =
         (if n = data_name (reader_currentId (impl src)) then None
          else record_at w (directory (impl src), n))))"
    using sr by blast
  have q': "directory q' = directory q \<and> queue_inv q' w'"
    using srq
  proof (elim conjE disjE exE)
    assume "q' = q" "\<forall>n. record_at w' (directory q, n) = record_at w (directory q, n)"
    then show ?thesis using inv_same [OF iq f'] by simp
  next
    fix b
    assume a: "q' = q\<lparr>writer_counter := writer_counter q + 1, length_q := length_q q + 1,
             notify := True\<rparr>"
      and r: "\<forall>n. record_at w' (directory q, n) =
         (if n = data_name (writer_counter q) then Some b else record_at w (directory q, n))"
    have "queue_inv q' w'" unfolding a
      by (rule inv_publish [OF iq l f', of b]) (simp add: r)
    then show ?thesis by (simp add: a)
  qed
  have g': "directory (impl src') = directory (impl src) \<and> queue_inv (impl src') w'"
    using srg
  proof (elim conjE disjE exE)
    assume "impl src' = impl src"
      "\<forall>n. record_at w' (directory (impl src), n) = record_at w (directory (impl src), n)"
    then show ?thesis using inv_same [OF ig f'] by simp
  next
    assume pr: "record_at w (File (impl src)) \<noteq> None"
      and a: "impl src' = (impl src)\<lparr>reader_currentId := reader_currentId (impl src) + 1,
                             length_q := length_q (impl src) - 1, notify := True\<rparr>"
      and r: "\<forall>n. record_at w' (directory (impl src), n) =
         (if n = data_name (reader_currentId (impl src)) then None
          else record_at w (directory (impl src), n))"
    have "queue_inv (impl src') w'" unfolding a
      by (rule inv_consume [OF ig pr f']) (simp add: r)
    then show ?thesis by (simp add: a)
  qed
  have o: "\<And>d n. d \<noteq> directory q \<Longrightarrow> d \<noteq> directory (impl src) \<Longrightarrow>
      record_at w' (d, n) = record_at w (d, n)"
    using sr by blast
  have "directory r = d \<and> queue_inv r w'"
    if r: "(qs(directory q \<mapsto> q', directory (impl src) \<mapsto> impl src')) d = Some r" for d r
  proof -
    consider "d = directory (impl src)" | "d \<noteq> directory (impl src)" "d = directory q"
      | "d \<noteq> directory (impl src)" "d \<noteq> directory q" by blast
    then show ?thesis
    proof cases
      case 1
      then show ?thesis using r g' by simp
    next
      case 2
      then show ?thesis using r q' by simp
    next
      case 3
      then have qr: "qs d = Some r" using r by simp
      then have dr: "directory r = d" and ir: "queue_inv r w" using s by (auto simp: system_inv_def)
      have "queue_inv r w'"
        by (rule inv_same [OF ir f']) (simp add: dr o [OF 3(2) 3(1)])
      then show ?thesis using dr by simp
    qed
  qed
  with f' show ?thesis unfolding system_inv_def by blast
qed

lemma reachable_inv: "reachable qs w \<Longrightarrow> system_inv qs w"
proof (induction rule: reachable.induct)
  case (start w)
  then show ?case by (simp add: system_inv_def)
next
  case (opened qs w dir q w')
  from system_Open [OF opened.IH opened.hyps(2,3,4)] show ?case .
next
  case (streamed qs w q h err q' u w')
  from system_Stream [OF streamed.IH streamed.hyps(2,3,4,5)] show ?case .
next
  case (put qs w q rd err q' w')
  from system_Put [OF put.IH put.hyps(2,3,4)] show ?case .
next
  case (attached qs w q old err q' w')
  from system_Attach [OF attached.IH attached.hyps(2,3,4,5)] show ?case .
next
  case (stolen qs w q src err q' src' w')
  from system_Steal [OF stolen.IH stolen.hyps(2,3,4,5,6)] show ?case .
next
  case (committed qs w q f err q' w')
  from system_Commit [OF committed.IH committed.hyps(2,3,4)] show ?case .
next
  case (supplied qs w ns)
  have "queue_inv q (w\<lparr>names := ns\<rparr>) = queue_inv q w" for q
    by (simp add: queue_inv_def records_def entries_def)
  with supplied.IH show ?case by (simp add: system_inv_def)
qed

text \<open>In such a state the next publish does not take the name of a record on disk.\<close>

lemma publish_fresh_id:
  assumes "reachable qs w" and "qs d = Some q"
  shows "data_name (writer_counter q) \<notin> records w (directory q)"
proof
  assume a: "data_name (writer_counter q) \<in> records w (directory q)"
  from assms have "queue_inv q w" using reachable_inv [of qs w] by (auto simp: system_inv_def)
  then have "records w (directory q) = data_name ` pending q" by (simp add: queue_inv_def)
  with a have "writer_counter q \<in> pending q" by auto
  then show False by (simp add: pending_def)
qed

text \<open>A publish leaves the record at the cursor as it is: \<open>Peek\<close> returns the same bytes
  after a \<open>Put\<close> as before.\<close>

lemma publish_keeps_head:
  assumes r: "reachable qs w" and o: "qs d = Some q" and pk: "fst (Peek q w) = Inr fh"
    and pt: "Put q rd w = (err, q', w')"
  shows "fst (Peek q' w') = Inr fh"
proof -
  from r o have i: "queue_inv q w" using reachable_inv [of qs w] by (auto simp: system_inv_def)
  then have f: "faulty w = []" by (simp add: queue_inv_def)
  obtain u where st: "Stream q (Put_handler rd) () w = (err, q', u, w')"
    using pt by (auto simp: Put_def split: prod.splits)
  from pk f obtain b where b: "map_of (files w) (File q) = Some b" and fh: "fh = (File q, b)"
    by (auto simp: Peek_result split: option.splits)
  then have "data_name (reader_currentId q) \<in> records w (directory q)"
    by (simp add: records_iff File_def)
  then have "reader_currentId q \<in> pending q" using i by (auto simp: queue_inv_def)
  then have ne: "reader_currentId q \<noteq> writer_counter q" by (auto simp: pending_def)
  from Stream_files [OF f Put_handler_scratch_only st]
  have "faulty w' = [] \<and> File q' = File q \<and> map_of (files w') (File q) = map_of (files w) (File q)"
    using ne by (auto simp: File_def)
  then show ?thesis using b fh by (simp add: Peek_result)
qed

subsection \<open>Calls outside the protocol\<close>

text \<open>
  Two values opened on one directory do not see each other: after a \<open>Put\<close> through the
  first, the second still has the length \<open>0\<close> while the directory holds a record.
\<close>

lemma second_handle_stale:
  "Open ''q'' \<lparr>files = [], faulty = [], names = [''1''], trace = []\<rparr> =
     (None,
      Some \<lparr>directory = ''q'', notify = False, reader_currentId = 0, writer_counter = 0,
            length_q = 0\<rparr>,
      \<lparr>files = [], faulty = [], names = [''1''], trace = []\<rparr>) \<and>
   snd (snd (Put \<lparr>directory = ''q'', notify = False, reader_currentId = 0, writer_counter = 0,
                  length_q = 0\<rparr> (''x'', None)
              \<lparr>files = [], faulty = [], names = [''1''], trace = []\<rparr>)) =
     \<lparr>files = [((''q'', ''0.data''), ''x'')], faulty = [], names = [],
       trace = [Created (''q'', ''1.temp''), Written (''q'', ''1.temp''),
                Renamed (''q'', ''1.temp'') (''q'', ''0.data'')]\<rparr> \<and>
   Len \<lparr>directory = ''q'', notify = False, reader_currentId = 0, writer_counter = 0,
         length_q = 0\<rparr> = 0 \<and>
   records
     \<lparr>files = [((''q'', ''0.data''), ''x'')], faulty = [], names = [],
       trace = [Created (''q'', ''1.temp''), Written (''q'', ''1.temp''),
                Renamed (''q'', ''1.temp'') (''q'', ''0.data'')]\<rparr> ''q'' = {''0.data''}"
  by (auto simp: os_defs q_defs str_defs records_def Let_def)

text \<open>
  \<open>Destroy\<close> removes the files and leaves the queue value as it is: the length stays
  \<open>1\<close> when the record is gone.
\<close>

lemma Destroy_keeps_Len:
  "Destroy \<lparr>directory = ''q'', notify = True, reader_currentId = 0, writer_counter = 1,
            length_q = 1\<rparr>
     \<lparr>files = [((''q'', ''0.data''), ''x'')], faulty = [], names = [], trace = []\<rparr> =
     (None, \<lparr>files = [], faulty = [], names = [], trace = [Removed (''q'', ''0.data'')]\<rparr>) \<and>
   Len \<lparr>directory = ''q'', notify = True, reader_currentId = 0, writer_counter = 1,
         length_q = 1\<rparr> = 1 \<and>
   records \<lparr>files = [], faulty = [], names = [], trace = [Removed (''q'', ''0.data'')]\<rparr> ''q'' = {}"
  by (simp add: Destroy_def os_RemoveAll_def os_defs q_defs records_def)

text \<open>
  At the largest \<open>int64\<close> the length wraps: a publish that succeeds there leaves the
  least \<open>int64\<close>.
\<close>

lemma Attach_at_max_wraps:
  assumes f: "faulty w = []" and l: "sint (Len q) = 2 ^ 63 - 1"
    and a: "Attach q old w = (None, q', w')"
  shows "sint (Len q') = - (2 ^ 63)"
proof -
  from Attach_record_at [OF f a] have "Len q' = Len q + 1" by (auto simp: Len_def)
  moreover have "Len q = word_of_int (sint (Len q))" by simp
  ultimately have "Len q' = word_of_int (2 ^ 63 - 1) + 1" using l by simp
  then show ?thesis by simp
qed

subsection \<open>The length in the states of the protocol\<close>

text \<open>
  C7, as the code has it. Between whole calls made one after another, on queues opened
  on different directories that held no record when they were opened, with no path
  refused by the operating system, the records published by \<open>Put\<close>, \<open>Stream\<close> (the
  handler touching only its scratch file), \<open>Attach\<close> (of a file that is not a record of
  an open queue) or \<open>Steal\<close> (from another open queue) while the length is below the
  largest \<open>int64\<close>, each \<open>Commit\<close> made on a queue while \<open>Peek\<close> on it returns a
  record, and no queue destroyed: for every open queue \<open>Len\<close> is the number of record
  files in its directory, and \<open>Len\<close> is \<open>0\<close> exactly when \<open>Peek\<close> returns
  \<open>ErrEmptyQueue\<close>.
\<close>

theorem Len_counts_records:
  assumes "reachable qs w" and "qs d = Some q"
  shows "sint (Len q) = int (card (records w (directory q))) \<and>
         (Len q = 0 \<longleftrightarrow> fst (Peek q w) = Inl ErrEmptyQueue)"
proof -
  from assms have i: "queue_inv q w" using reachable_inv [of qs w] by (auto simp: system_inv_def)
  have inj: "inj_on data_name (pending q)" by (rule inj_onI) simp
  have "records w (directory q) = data_name ` pending q"
    using i by (simp add: queue_inv_def)
  then have "card (records w (directory q)) = card (pending q)"
    using card_image [OF inj] by simp
  then have card: "card (records w (directory q)) = unat (writer_counter q - reader_currentId q)"
    by (simp add: card_pending)
  have "sint (writer_counter q - reader_currentId q) =
      int (unat (writer_counter q - reader_currentId q))"
    using i by (intro sint_unat_small) (simp add: queue_inv_def)
  moreover have "Len q = writer_counter q - reader_currentId q"
    using i by (simp add: Len_def queue_inv_def)
  ultimately have len: "sint (Len q) = int (card (records w (directory q)))"
    unfolding card by simp
  have f: "faulty w = []" using i by (simp add: queue_inv_def)
  have rec: "records w (directory q) = data_name ` pending q" using i by (simp add: queue_inv_def)
  have "fst (Peek q w) = Inl ErrEmptyQueue \<longleftrightarrow>
      data_name (reader_currentId q) \<notin> records w (directory q)"
    using f by (auto simp: Peek_result records_iff File_def split: option.splits)
  also have "\<dots> \<longleftrightarrow> reader_currentId q \<notin> pending q"
    unfolding rec by auto
  also have "\<dots> \<longleftrightarrow> writer_counter q - reader_currentId q = 0"
    by (simp add: pending_def unat_gt_0)
  also have "\<dots> \<longleftrightarrow> Len q = 0"
    using i by (simp add: Len_def queue_inv_def)
  finally show ?thesis using len by simp
qed

text \<open>
  Two queues opened on an empty file system, one \<open>Put\<close> into the first, and the second
  steals the record: the state is reached, and the second queue has the length \<open>1\<close>,
  one record, and \<open>Peek\<close> returns it.
\<close>

theorem Len_counts_records_witness:
  "reachable
     [''a'' \<mapsto> \<lparr>directory = ''a'', notify = True, reader_currentId = 1, writer_counter = 1,
                 length_q = 0\<rparr>,
      ''b'' \<mapsto> \<lparr>directory = ''b'', notify = True, reader_currentId = 0, writer_counter = 1,
                 length_q = 1\<rparr>]
     \<lparr>files = [((''b'', ''0.data''), ''x'')], faulty = [], names = [],
       trace = [Created (''a'', ''1.temp''), Written (''a'', ''1.temp''),
                Renamed (''a'', ''1.temp'') (''a'', ''0.data''),
                Renamed (''a'', ''0.data'') (''b'', ''0.data'')]\<rparr> \<and>
   sint (Len \<lparr>directory = ''b'', notify = True, reader_currentId = 0, writer_counter = 1,
               length_q = 1\<rparr>) = 1 \<and>
   card (records
     \<lparr>files = [((''b'', ''0.data''), ''x'')], faulty = [], names = [],
       trace = [Created (''a'', ''1.temp''), Written (''a'', ''1.temp''),
                Renamed (''a'', ''1.temp'') (''a'', ''0.data''),
                Renamed (''a'', ''0.data'') (''b'', ''0.data'')]\<rparr> ''b'') = 1 \<and>
   fst (Peek \<lparr>directory = ''b'', notify = True, reader_currentId = 0, writer_counter = 1,
               length_q = 1\<rparr>
     \<lparr>files = [((''b'', ''0.data''), ''x'')], faulty = [], names = [],
       trace = [Created (''a'', ''1.temp''), Written (''a'', ''1.temp''),
                Renamed (''a'', ''1.temp'') (''a'', ''0.data''),
                Renamed (''a'', ''0.data'') (''b'', ''0.data'')]\<rparr>) =
     Inr ((''b'', ''0.data''), ''x'')"
proof -
  let ?w0 = "\<lparr>files = [], faulty = [], names = [''1''], trace = []\<rparr>"
  let ?a0 = "\<lparr>directory = ''a'', notify = False, reader_currentId = 0, writer_counter = 0,
              length_q = 0\<rparr>"
  let ?b0 = "\<lparr>directory = ''b'', notify = False, reader_currentId = 0, writer_counter = 0,
              length_q = 0\<rparr>"
  let ?a1 = "\<lparr>directory = ''a'', notify = True, reader_currentId = 0, writer_counter = 1,
              length_q = 1\<rparr>"
  let ?w1 = "\<lparr>files = [((''a'', ''0.data''), ''x'')], faulty = [], names = [],
       trace = [Created (''a'', ''1.temp''), Written (''a'', ''1.temp''),
                Renamed (''a'', ''1.temp'') (''a'', ''0.data'')]\<rparr>"
  let ?a2 = "\<lparr>directory = ''a'', notify = True, reader_currentId = 1, writer_counter = 1,
              length_q = 0\<rparr>"
  let ?b1 = "\<lparr>directory = ''b'', notify = True, reader_currentId = 0, writer_counter = 1,
              length_q = 1\<rparr>"
  let ?w2 = "\<lparr>files = [((''b'', ''0.data''), ''x'')], faulty = [], names = [],
       trace = [Created (''a'', ''1.temp''), Written (''a'', ''1.temp''),
                Renamed (''a'', ''1.temp'') (''a'', ''0.data''),
                Renamed (''a'', ''0.data'') (''b'', ''0.data'')]\<rparr>"
  have r0: "reachable Map.empty ?w0"
    by (rule reachable.start) simp
  have oa: "Open ''a'' ?w0 = (None, Some ?a0, ?w0)"
    by (simp add: Open_empty entries_def)
  have ob: "Open ''b'' ?w0 = (None, Some ?b0, ?w0)"
    by (simp add: Open_empty entries_def)
  have r1: "reachable [''a'' \<mapsto> ?a0] ?w0"
    by (rule reachable.opened [OF r0 _ _ oa]) (simp_all add: records_def entries_def)
  have r2: "reachable [''a'' \<mapsto> ?a0, ''b'' \<mapsto> ?b0] ?w0"
    by (rule reachable.opened [OF r1 _ _ ob]) (simp_all add: records_def entries_def)
  have p: "Put ?a0 (''x'', None) ?w0 = (None, ?a1, ?w1)"
    by (simp add: os_defs q_defs str_defs)
  have r3: "reachable [''a'' \<mapsto> ?a1, ''b'' \<mapsto> ?b0] ?w1"
    using reachable.put [OF r2 _ _ p] by (simp add: Len_def fun_upd_twist)
  have s: "Steal ?b0 (WithFile ?a1) ?w1 = (None, ?b1, WithFile ?a2, ?w2)"
    by (simp add: Steal_def os_defs q_defs str_defs Let_def)
  have r4: "reachable [''a'' \<mapsto> ?a2, ''b'' \<mapsto> ?b1] ?w2"
    using reachable.stolen [OF r3 _ _ _ _ s] by (simp add: Len_def fun_upd_twist)
  from Len_counts_records [OF r4, of "''b''" ?b1] r4 show ?thesis
    by (simp add: os_defs q_defs str_defs)
qed

text \<open>
  C7 as stated fails on a state the interface reaches: a queue opened on an empty file
  system and committed once has the length \<open>-1\<close>, no record, and \<open>Peek\<close> returns
  \<open>ErrEmptyQueue\<close> while \<open>Len\<close> is not \<open>0\<close>.
\<close>

theorem Len_counts_records_counterexample:
  "Open ''q'' \<lparr>files = [], faulty = [], names = [], trace = []\<rparr> =
     (None,
      Some \<lparr>directory = ''q'', notify = False, reader_currentId = 0, writer_counter = 0,
            length_q = 0\<rparr>,
      \<lparr>files = [], faulty = [], names = [], trace = []\<rparr>) \<and>
   Commit \<lparr>directory = ''q'', notify = False, reader_currentId = 0, writer_counter = 0,
            length_q = 0\<rparr>
     \<lparr>files = [], faulty = [], names = [], trace = []\<rparr> =
     (None,
      \<lparr>directory = ''q'', notify = True, reader_currentId = 1, writer_counter = 0,
        length_q = - 1\<rparr>,
      \<lparr>files = [], faulty = [], names = [], trace = []\<rparr>) \<and>
   sint (Len \<lparr>directory = ''q'', notify = True, reader_currentId = 1, writer_counter = 0,
               length_q = - 1\<rparr>) = - 1 \<and>
   Len \<lparr>directory = ''q'', notify = True, reader_currentId = 1, writer_counter = 0,
         length_q = - 1\<rparr> \<noteq> 0 \<and>
   card (records \<lparr>files = [], faulty = [], names = [], trace = []\<rparr> ''q'') = 0 \<and>
   fst (Peek \<lparr>directory = ''q'', notify = True, reader_currentId = 1, writer_counter = 0,
               length_q = - 1\<rparr>
          \<lparr>files = [], faulty = [], names = [], trace = []\<rparr>) = Inl ErrEmptyQueue"
  by (simp add: os_defs q_defs str_defs records_def Let_def)

end
